theory Spec2Isabelle
  imports Complex_Main "HOL-Library.Word"
begin

unbundle bit_operations_syntax

section \<open>The touch-gated recorder of \<^verbatim>\<open>omiGlass/firmware/src/app.cpp\<close>\<close>

text \<open>
  The firmware is one cooperative loop (\<^verbatim>\<open>loop_app\<close>) over global variables. The
  model keeps the globals in one record, passes it through every function and returns it
  updated. What the program sends to its collaborators (BLE notifications, camera calls,
  serial messages) is appended to the field \<open>trace\<close>, in program order.

  Conventions of the embedding:
  \<^item> \<^verbatim>\<open>unsigned long\<close> and \<^verbatim>\<open>size_t\<close> are 32 bits on the ESP32-S3: \<open>32 word\<close>, whose
    subtraction wraps as \<^verbatim>\<open>now - start\<close> does in the source;
  \<^item> \<^verbatim>\<open>int16_t\<close> samples are \<open>16 word\<close>, read with \<open>sint\<close>; bytes are \<open>8 word\<close>;
  \<^item> \<^verbatim>\<open>float\<close> is IEEE 754 binary32: a \<^verbatim>\<open>float\<close> value is the \<open>real\<close> number it denotes,
    and every operation of the source on \<^verbatim>\<open>float\<close> operands is the exact operation
    followed by the rounding \<open>f32\<close> to the nearest binary32 number, ties to even
    (section \<open>Single-precision arithmetic\<close>);
  \<^item> constants of \<^verbatim>\<open>config.h\<close>, which is not among the sources, are the fields of the
    record \<open>config\<close>, a parameter of every function that uses them;
  \<^item> rate-limited debug prints (guarded by function-local \<^verbatim>\<open>static\<close> timers), LED pin
    writes and \<^verbatim>\<open>delay\<close> calls are left out, as are the variables that the modelled
    functions only write for the power subsystem (\<^verbatim>\<open>lastActivity\<close>,
    \<^verbatim>\<open>lastMicrophoneActivity\<close>).
\<close>

subsection \<open>Data\<close>

datatype touch_state_t =
    TOUCH_IDLE
  | TOUCH_DETECTED
  | TOUCH_RECORDING_ACTIVE
  | TOUCH_RECORDING_SILENCE
  | TOUCH_PROCESSING

datatype led_status_t =
    LED_BOOT_SEQUENCE
  | LED_NORMAL_OPERATION
  | LED_PHOTO_CAPTURE
  | LED_POWER_OFF_SEQUENCE

text \<open>The observable actions: one constructor per collaborator call.\<close>

datatype event =
    AudioNotify "8 word list"
  | PhotoNotify "8 word list"
  | CameraGet
  | CameraReturn "8 word list"
  | Serial string

record config =
  TOUCH_THRESHOLD :: int
  TOUCH_DEBOUNCE_MS :: "32 word"
  TOUCH_SILENCE_DURATION_MS :: "32 word"
  TOUCH_MIN_RECORDING_MS :: "32 word"
  TOUCH_ACTIVATION_TIMEOUT :: "32 word"
  SILENCE_THRESHOLD :: real
  PHOTO_CAPTURE_INTERVAL_MS :: int
  I2S_READ_LEN :: nat

definition TOUCH_AUDIO_MAX_BYTES :: nat where
  "TOUCH_AUDIO_MAX_BYTES = 192000"

definition AUDIO_BUFFER_SIZE :: nat where
  "AUDIO_BUFFER_SIZE = 2048"

record app =
  touchState :: touch_state_t
  lastTouchTime :: "32 word"
  touchRecordingStartTime :: "32 word"
  lastSpeechTime :: "32 word"
  silenceStartTime :: "32 word"
  touchActivationMode :: bool
  ledMode :: led_status_t
  fb :: "8 word list option"
  microphoneInitialized :: bool
  voiceActivationEnabled :: bool
  listeningForWakeWord :: bool
  recordingCommand :: bool
  currentAudioLevel :: real
  peakAudioLevel :: real
  audioBuffer :: "16 word list"
  bleAudioBuffer :: "8 word list"
  touchAudioAccum :: "8 word list"
  touchAudioAccumIndex :: "32 word"
  audioBufferIndex :: "32 word"
  audioDataCharacteristic :: bool
  connected :: bool
  isCapturingPhotos :: bool
  captureInterval :: int
  lastCaptureTime :: "32 word"
  sent_photo_bytes :: "32 word"
  sent_photo_frames :: "32 word"
  photoDataUploading :: bool
  trace :: "event list"

text \<open>What one pass of the loop reads from the hardware.\<close>

record inputs =
  millis_loop :: "32 word"
  millis_touch :: "32 word"
  touchRead :: "16 word"
  i2s_ok :: bool
  i2s_data :: "16 word list"
  camera_frame :: "8 word list option"

definition emit :: "event \<Rightarrow> app \<Rightarrow> app" where
  "emit e s = s\<lparr>trace := trace s @ [e]\<rparr>"

definition println :: "string \<Rightarrow> app \<Rightarrow> app" where
  "println msg s = emit (Serial msg) s"

subsection \<open>Serial messages\<close>

text \<open>
  The text of the messages that the modelled functions print, without the leading emoji
  and the formatted numbers.
\<close>

definition msg_touch_detected :: string where
  "msg_touch_detected = ''TOUCH DETECTED! Ready to record...''"

definition msg_get_ready :: string where
  "msg_get_ready = ''Get ready to speak - recording will start when you release your finger!''"

definition msg_touch_released :: string where
  "msg_touch_released = ''Touch released! Recording until 2s silence...''"

definition msg_starting_recording :: string where
  "msg_starting_recording = ''Starting touch-activated recording (speak now!)''"

definition msg_voice_listening_disabled :: string where
  "msg_voice_listening_disabled = ''Voice listening disabled''"

definition msg_photo_after_audio :: string where
  "msg_photo_after_audio = ''Photo will be captured after audio recording completes...''"

definition msg_speech :: string where
  "msg_speech = ''SPEECH - Recording continues''"

definition msg_silence_start :: string where
  "msg_silence_start = ''SILENCE START - timer started''"

definition msg_max_time :: string where
  "msg_max_time = ''Maximum recording time reached! Processing...''"

definition msg_speech_resumed :: string where
  "msg_speech_resumed = ''Speech resumed - back to recording''"

definition msg_silence :: string where
  "msg_silence = ''SILENCE''"

definition msg_recording_complete :: string where
  "msg_recording_complete = ''Recording complete!''"

definition msg_recording_too_short :: string where
  "msg_recording_too_short = ''Recording too short - continuing...''"

definition msg_max_time_silence :: string where
  "msg_max_time_silence = ''Maximum recording time reached during silence! Processing...''"

definition msg_sending_final :: string where
  "msg_sending_final = ''Sending final touch audio data''"

definition msg_full_session_sent :: string where
  "msg_full_session_sent = ''Touch-activated FULL SESSION sent''"

definition msg_fallback_sent :: string where
  "msg_fallback_sent = ''Touch-activated voice recording sent (fallback small buffer)''"

definition msg_no_audio_captured :: string where
  "msg_no_audio_captured = ''No audio data captured during touch recording!''"

definition msg_touch_recording_complete :: string where
  "msg_touch_recording_complete = ''Touch recording complete - ready for next touch activation''"

definition msg_now_taking_photo :: string where
  "msg_now_taking_photo = ''Now taking photo after audio recording completed...''"

definition msg_activation_complete :: string where
  "msg_activation_complete = ''Touch activation complete. Ready for next touch.''"

definition msg_accumulating :: string where
  "msg_accumulating = ''Touch recording accumulating''"

definition msg_buffer_full :: string where
  "msg_buffer_full = ''Touch audio buffer full - stopping accumulation''"

definition msg_releasing_previous :: string where
  "msg_releasing_previous = ''Releasing previous camera buffer...''"

definition msg_capturing_photo :: string where
  "msg_capturing_photo = ''Capturing photo...''"

definition msg_capture_failed :: string where
  "msg_capture_failed = ''Failed to get camera frame buffer!''"

definition msg_photo_captured :: string where
  "msg_photo_captured = ''Photo captured''"

definition msg_interval_reached :: string where
  "msg_interval_reached = ''Interval reached. Capturing photo...''"

definition msg_capture_successful :: string where
  "msg_capture_successful = ''Photo capture successful. Starting upload...''"

definition msg_uploading_chunk :: string where
  "msg_uploading_chunk = ''Uploading chunk''"

definition msg_upload_complete :: string where
  "msg_upload_complete = ''Photo upload complete.''"

definition msg_frame_buffer_freed :: string where
  "msg_frame_buffer_freed = ''Camera frame buffer freed.''"

subsection \<open>\<^verbatim>\<open>sendAudioData\<close>\<close>

text \<open>
  The chunk loop of \<^verbatim>\<open>sendAudioData\<close>: 200 payload bytes per notification behind a
  two-byte little-endian chunk index. \<open>offset\<close> is a \<^verbatim>\<open>size_t\<close>; it is a \<open>nat\<close> here
  because \<open>len\<close> never exceeds 192000, far from the wrap-around.
\<close>

function sendAudioData_loop :: "8 word list \<Rightarrow> nat \<Rightarrow> nat \<Rightarrow> event list" where
  "sendAudioData_loop audioData len offset =
     (if offset < len then
        (let currentChunkSize = min 200 (len - offset);
             packet = [word_of_nat (offset div 200) AND 0xFF,
                       word_of_nat (drop_bit 8 (offset div 200)) AND 0xFF]
                      @ take currentChunkSize (drop offset audioData)
         in AudioNotify packet # sendAudioData_loop audioData len (offset + 200))
      else [])"
  by pat_completeness auto
termination
  by (relation "measure (\<lambda>(audioData, len, offset). len - offset)") auto

declare sendAudioData_loop.simps [simp del]

definition sendAudioData :: "8 word list \<Rightarrow> 32 word \<Rightarrow> app \<Rightarrow> app" where
  "sendAudioData audioData len s =
     (if \<not> connected s \<or> \<not> audioDataCharacteristic s then s
      else s\<lparr>trace := trace s @ sendAudioData_loop audioData (unat len) 0\<rparr>)"

subsection \<open>\<^verbatim>\<open>handleTouchSensor\<close>\<close>

definition isTouchDetected :: "config \<Rightarrow> 16 word \<Rightarrow> bool" where
  "isTouchDetected cfg touchValue \<longleftrightarrow> uint touchValue < TOUCH_THRESHOLD cfg"

definition touch_idle :: "config \<Rightarrow> 32 word \<Rightarrow> 16 word \<Rightarrow> app \<Rightarrow> app" where
  "touch_idle cfg now touchValue s =
     (if isTouchDetected cfg touchValue then
        (if now - lastTouchTime s > TOUCH_DEBOUNCE_MS cfg then
           (let s = s\<lparr>touchState := TOUCH_DETECTED, lastTouchTime := now\<rparr>;
                s = println msg_touch_detected s;
                s = println msg_get_ready s
            in s\<lparr>ledMode := LED_PHOTO_CAPTURE\<rparr>)
         else s)
      else s)"

definition touch_detected :: "config \<Rightarrow> 32 word \<Rightarrow> 16 word \<Rightarrow> app \<Rightarrow> app" where
  "touch_detected cfg now touchValue s =
     (if \<not> isTouchDetected cfg touchValue then
        (let s = s\<lparr>touchState := TOUCH_RECORDING_ACTIVE,
                   touchRecordingStartTime := now,
                   lastSpeechTime := now,
                   silenceStartTime := 0\<rparr>;
             s = println msg_touch_released s;
             s = (if \<not> recordingCommand s then
                    (let s = s\<lparr>recordingCommand := True,
                               audioBufferIndex := 0,
                               touchAudioAccumIndex := 0\<rparr>;
                         s = s\<lparr>listeningForWakeWord := False\<rparr>;
                         s = println msg_starting_recording s
                     in println msg_voice_listening_disabled s)
                  else s);
             s = println msg_photo_after_audio s
         in s\<lparr>ledMode := LED_NORMAL_OPERATION\<rparr>)
      else s)"

definition safety_timeout :: "config \<Rightarrow> 32 word \<Rightarrow> string \<Rightarrow> app \<Rightarrow> app" where
  "safety_timeout cfg now msg s =
     (if now - touchRecordingStartTime s \<ge> TOUCH_ACTIVATION_TIMEOUT cfg then
        (println msg s)\<lparr>touchState := TOUCH_PROCESSING\<rparr>
      else s)"

definition touch_recording_active :: "config \<Rightarrow> 32 word \<Rightarrow> app \<Rightarrow> app" where
  "touch_recording_active cfg now s =
     (let s = (if currentAudioLevel s > SILENCE_THRESHOLD cfg then
                 println msg_speech
                   (s\<lparr>lastSpeechTime := now, silenceStartTime := 0\<rparr>)
               else if silenceStartTime s = 0 then
                 println msg_silence_start
                   (s\<lparr>silenceStartTime := now, touchState := TOUCH_RECORDING_SILENCE\<rparr>)
               else s)
      in safety_timeout cfg now msg_max_time s)"

definition touch_recording_silence :: "config \<Rightarrow> 32 word \<Rightarrow> app \<Rightarrow> app" where
  "touch_recording_silence cfg now s =
     (let s = (if currentAudioLevel s > SILENCE_THRESHOLD cfg then
                 println msg_speech_resumed
                   (s\<lparr>touchState := TOUCH_RECORDING_ACTIVE,
                      lastSpeechTime := now,
                      silenceStartTime := 0\<rparr>)
               else
                 (let silenceDuration = now - silenceStartTime s;
                      s = println msg_silence s
                  in if silenceDuration \<ge> TOUCH_SILENCE_DURATION_MS cfg then
                       (let totalRecordingTime = now - touchRecordingStartTime s
                        in if totalRecordingTime \<ge> TOUCH_MIN_RECORDING_MS cfg then
                             (println msg_recording_complete s)
                               \<lparr>touchState := TOUCH_PROCESSING\<rparr>
                           else
                             (println msg_recording_too_short s)
                               \<lparr>touchState := TOUCH_RECORDING_ACTIVE,
                                silenceStartTime := 0\<rparr>)
                     else s))
      in safety_timeout cfg now
           msg_max_time_silence s)"

definition touch_processing :: "app \<Rightarrow> app" where
  "touch_processing s =
     (let s = (if recordingCommand s then
                 (let s = s\<lparr>recordingCommand := False\<rparr>;
                      s = println msg_sending_final s;
                      s = (if touchAudioAccumIndex s > 0 then
                             println msg_full_session_sent
                               (sendAudioData (touchAudioAccum s) (touchAudioAccumIndex s) s)
                           else if audioBufferIndex s > 0 then
                             println msg_fallback_sent
                               (sendAudioData (bleAudioBuffer s) (audioBufferIndex s) s)
                           else
                             println msg_no_audio_captured s);
                      s = s\<lparr>audioBufferIndex := 0, touchAudioAccumIndex := 0\<rparr>;
                      s = s\<lparr>listeningForWakeWord := False\<rparr>;
                      s = println msg_touch_recording_complete s;
                      s = println msg_now_taking_photo s
                  in if \<not> isCapturingPhotos s then
                       s\<lparr>isCapturingPhotos := True, captureInterval := 0\<rparr>
                     else s)
               else s)
      in if \<not> isCapturingPhotos s then
           (let s = s\<lparr>ledMode := LED_PHOTO_CAPTURE\<rparr>;
                s = s\<lparr>touchState := TOUCH_IDLE,
                       touchActivationMode := False,
                       ledMode := LED_NORMAL_OPERATION\<rparr>
            in println msg_activation_complete s)
         else s)"

definition handleTouchSensor :: "config \<Rightarrow> 32 word \<Rightarrow> 16 word \<Rightarrow> app \<Rightarrow> app" where
  "handleTouchSensor cfg now touchValue s =
     (case touchState s of
        TOUCH_IDLE \<Rightarrow> touch_idle cfg now touchValue s
      | TOUCH_DETECTED \<Rightarrow> touch_detected cfg now touchValue s
      | TOUCH_RECORDING_ACTIVE \<Rightarrow> touch_recording_active cfg now s
      | TOUCH_RECORDING_SILENCE \<Rightarrow> touch_recording_silence cfg now s
      | TOUCH_PROCESSING \<Rightarrow> touch_processing s)"

subsection \<open>Single-precision arithmetic\<close>

text \<open>
  A binary32 number is \<open>m * 2^e\<close> with an integer \<open>m\<close> of magnitude below \<open>2^24\<close> and an
  exponent \<open>e\<close> from -149 to 104. \<open>round_to_even\<close> is rounding to the nearest integer,
  a tie going to the even one. \<open>ulp_exponent x\<close> is the exponent of the unit in the last
  place at \<open>x\<close>: the least \<open>e\<close> of that range with \<open>\<bar>x\<bar> < 2^(e + 24)\<close>, which is -149 for
  the subnormal numbers. \<open>f32 x\<close> is the binary32 number nearest to \<open>x\<close>: what an
  operation of the target stores when its exact result is \<open>x\<close>.

  Addition, subtraction, multiplication and division of \<^verbatim>\<open>float\<close> operands, \<^verbatim>\<open>sqrtf\<close> and
  the conversion of an integer to \<^verbatim>\<open>float\<close> (\<open>float_of_int\<close>) are correctly rounded in
  IEEE 754: each is the exact result under \<open>f32\<close>. Each operation of the source rounds
  on its own (a product and the sum that takes it are two roundings).

  A result whose rounding would reach \<open>2^128\<close> is an infinity in binary32, which the
  model does not have. No operation of the modelled functions comes near it: the sums
  that grow with the length of the block never exceed \<open>2^60\<close>, whatever the block
  (lemmas \<open>dc_sum_bounded\<close>, \<open>level_loop_bounded\<close>, \<open>energy_sum_bounded\<close> and
  \<open>spectral_loop_bounded\<close>), and every other value comes from them and from 16-bit
  samples by a few operations. A NaN arises only from \<open>0.0f / 0\<close> on an empty block,
  which is treated where it occurs.
\<close>

definition round_to_even :: "real \<Rightarrow> int" where
  "round_to_even x =
     (let n = \<lfloor>x\<rfloor>; r = x - of_int n
      in if r < 1 / 2 then n else if 1 / 2 < r then n + 1 else if even n then n else n + 1)"

definition binary32_exponents :: "int list" where
  "binary32_exponents = [- 149..104]"

definition ulp_exponent :: "real \<Rightarrow> int" where
  "ulp_exponent x =
     (case find (\<lambda>e. \<bar>x\<bar> < 2 powi (e + 24)) binary32_exponents of
        Some e \<Rightarrow> e
      | None \<Rightarrow> 104)"

definition f32 :: "real \<Rightarrow> real" where
  "f32 x = of_int (round_to_even (x / 2 powi ulp_exponent x)) * 2 powi ulp_exponent x"

text \<open>\<^verbatim>\<open>(float)k\<close> for an integer \<open>k\<close>.\<close>

definition float_of_int :: "int \<Rightarrow> real" where
  "float_of_int k = f32 (real_of_int k)"

subsection \<open>The audio level of \<^verbatim>\<open>processAudio\<close>\<close>

definition GAIN :: real where
  "GAIN = 16"

definition NOISE_GATE :: int where
  "NOISE_GATE = 100"

text \<open>
  \<^verbatim>\<open>(int16_t)(ac * GAIN)\<close>: the conversion from \<^verbatim>\<open>float\<close> discards the fractional part
  (rounds toward zero). A value outside the \<^verbatim>\<open>int16_t\<close> range is undefined behaviour in
  C++; the model keeps the low 16 bits of the truncated integer, as the target's
  instructions do.
\<close>

definition trunc_toward_zero :: "real \<Rightarrow> int" where
  "trunc_toward_zero x = (if 0 \<le> x then \<lfloor>x\<rfloor> else \<lceil>x\<rceil>)"

definition float_to_int16 :: "real \<Rightarrow> 16 word" where
  "float_to_int16 x = word_of_int (trunc_toward_zero x)"

text \<open>First loop: \<^verbatim>\<open>dc_offset += (float)audioBuffer[i]\<close>.\<close>

fun dc_sum :: "16 word list \<Rightarrow> real \<Rightarrow> real" where
  "dc_sum [] dc_offset = dc_offset"
| "dc_sum (x # xs) dc_offset = dc_sum xs (f32 (dc_offset + float_of_int (sint x)))"

record level_acc =
  sum_squares :: real
  min_sample :: "16 word"
  max_sample :: "16 word"
  valid_samples :: int

text \<open>
  Second loop: gain, noise gate, sum of squares and the range of the survivors. The
  statement \<^verbatim>\<open>sum_squares += (float)proc * (float)proc\<close> rounds the product and then the
  sum.
\<close>

fun level_loop :: "real \<Rightarrow> 16 word list \<Rightarrow> level_acc \<Rightarrow> level_acc" where
  "level_loop dc_offset [] a = a"
| "level_loop dc_offset (x # xs) a =
     (let ac = f32 (float_of_int (sint x) - dc_offset);
          proc = float_to_int16 (f32 (ac * GAIN))
      in if \<bar>sint proc\<bar> > NOISE_GATE then
           level_loop dc_offset xs
             (a\<lparr>min_sample := (if sint proc < sint (min_sample a) then proc else min_sample a),
                max_sample := (if sint proc > sint (max_sample a) then proc else max_sample a),
                sum_squares := f32 (sum_squares a
                                     + f32 (float_of_int (sint proc) * float_of_int (sint proc))),
                valid_samples := valid_samples a + 1\<rparr>)
         else level_loop dc_offset xs a)"

text \<open>
  \<^verbatim>\<open>dc_offset /= (float)samples_read\<close>, then the second loop, then
  \<^verbatim>\<open>rms = sqrtf(sum_squares / (float)valid_samples)\<close> and
  \<^verbatim>\<open>(rms / 32768.0f) * 100.0f\<close>.
\<close>

definition audio_level :: "16 word list \<Rightarrow> real" where
  "audio_level samples =
     (let dc_offset = f32 (dc_sum samples 0 / float_of_int (int (length samples)));
          a = level_loop dc_offset samples
                \<lparr>sum_squares = 0, min_sample = 32767, max_sample = - 32768, valid_samples = 0\<rparr>
      in if valid_samples a > 0 then
           (let rms = f32 (sqrt (f32 (sum_squares a / float_of_int (valid_samples a))))
            in f32 (f32 (rms / 32768) * 100))
         else 0)"

subsection \<open>\<^verbatim>\<open>processAudio\<close>\<close>

text \<open>\<^verbatim>\<open>memcpy(&dst[off], src, n)\<close> on arrays held as lists.\<close>

definition memcpy :: "'a list \<Rightarrow> nat \<Rightarrow> 'a list \<Rightarrow> nat \<Rightarrow> 'a list" where
  "memcpy dst off src n = take off dst @ take n src @ drop (off + n) dst"

text \<open>The bytes of the sample array, little-endian as on the target.\<close>

definition bytes_of_samples :: "16 word list \<Rightarrow> 8 word list" where
  "bytes_of_samples xs = concat (map (\<lambda>w. [ucast w, ucast (drop_bit 8 w)]) xs)"

text \<open>
  \<open>ok\<close> is \<^verbatim>\<open>result == ESP_OK\<close> and \<open>data\<close> the samples that \<^verbatim>\<open>i2s_read\<close> delivers
  (\<^verbatim>\<open>bytes_read\<close> is twice their number); the read never delivers more than the buffer
  holds, and leaves the rest of \<^verbatim>\<open>audioBuffer\<close> as it was.
\<close>

text \<open>The level and the running peak (lines 1103 to 1109 of the source).\<close>

definition update_audio_level :: "16 word list \<Rightarrow> app \<Rightarrow> app" where
  "update_audio_level samples s =
     (let s = s\<lparr>currentAudioLevel := audio_level samples\<rparr>
      in if currentAudioLevel s > peakAudioLevel s
         then s\<lparr>peakAudioLevel := currentAudioLevel s\<rparr> else s)"

text \<open>
  The append to the session buffer (lines 1120 to 1131): the whole of \<^verbatim>\<open>audioBuffer\<close>
  (\<^verbatim>\<open>sizeof(audioBuffer)\<close> bytes) or what is left of the capacity, whichever is smaller.
  \<open>touch_bytes_to_copy\<close> is the value of the local \<^verbatim>\<open>bytesToCopy\<close>, in \<^verbatim>\<open>size_t\<close>
  arithmetic.
\<close>

definition touch_bytes_to_copy :: "config \<Rightarrow> 32 word \<Rightarrow> 32 word" where
  "touch_bytes_to_copy cfg idx =
     min (word_of_nat (2 * I2S_READ_LEN cfg)) (word_of_nat TOUCH_AUDIO_MAX_BYTES - idx)"

definition accumulate_touch_audio :: "config \<Rightarrow> app \<Rightarrow> app" where
  "accumulate_touch_audio cfg s =
     (if recordingCommand s \<and>
         (touchState s = TOUCH_RECORDING_ACTIVE \<or> touchState s = TOUCH_RECORDING_SILENCE)
      then
        (let bytesToCopy = touch_bytes_to_copy cfg (touchAudioAccumIndex s)
         in if bytesToCopy > 0 then
              (let s = s\<lparr>touchAudioAccum :=
                           memcpy (touchAudioAccum s) (unat (touchAudioAccumIndex s))
                             (bytes_of_samples (audioBuffer s)) (unat bytesToCopy)\<rparr>;
                   s = s\<lparr>touchAudioAccumIndex := touchAudioAccumIndex s + bytesToCopy\<rparr>
               in println msg_accumulating s)
            else println msg_buffer_full s)
      else s)"

definition processAudio :: "config \<Rightarrow> bool \<Rightarrow> 16 word list \<Rightarrow> app \<Rightarrow> app" where
  "processAudio cfg ok data s =
     (if \<not> microphoneInitialized s then s
      else if \<not> voiceActivationEnabled s then s
      else
        (let blk = take (I2S_READ_LEN cfg) data;
             bytes_read = 2 * length blk
         in if ok \<and> bytes_read > 0 then
              (let s = s\<lparr>audioBuffer := blk @ drop (length blk) (audioBuffer s)\<rparr>;
                   samples_read = bytes_read div 2;
                   s = update_audio_level (take samples_read (audioBuffer s)) s
               in accumulate_touch_audio cfg s)
            else s))"

subsection \<open>\<^verbatim>\<open>detectSpeechActivity\<close>\<close>

text \<open>
  \<^verbatim>\<open>totalEnergy += (float)(samples[i] * samples[i])\<close>: the product is an \<^verbatim>\<open>int\<close> of at
  most \<open>2^30\<close>, which the conversion rounds to binary32 before the sum is rounded.
\<close>

fun energy_sum :: "16 word list \<Rightarrow> real \<Rightarrow> real" where
  "energy_sum [] totalEnergy = totalEnergy"
| "energy_sum (x # xs) totalEnergy =
     energy_sum xs (f32 (totalEnergy + float_of_int (sint x * sint x)))"

text \<open>
  The loop \<^verbatim>\<open>for (i = 1; i < sampleCount/4; i++)\<close> over successive differences:
  \<^verbatim>\<open>float diff = abs(sample2 - sample1)\<close>, added to the sum of its band. The difference
  of two samples is an integer of magnitude below \<open>2^16\<close>, so the integer and the
  floating-point \<^verbatim>\<open>abs\<close> give the same value.
\<close>

function spectral_loop ::
  "16 word list \<Rightarrow> nat \<Rightarrow> nat \<Rightarrow> real \<times> real \<times> real \<Rightarrow> real \<times> real \<times> real" where
  "spectral_loop samples sampleCount i (lowFreqEnergy, midFreqEnergy, highFreqEnergy) =
     (if i < sampleCount div 4 then
        (let sample1 = float_of_int (sint (samples ! (i - 1)));
             sample2 = float_of_int (sint (samples ! i));
             diff = \<bar>f32 (sample2 - sample1)\<bar>
         in if i < sampleCount div 12 then
              spectral_loop samples sampleCount (i + 1)
                (f32 (lowFreqEnergy + diff), midFreqEnergy, highFreqEnergy)
            else if i < sampleCount div 6 then
              spectral_loop samples sampleCount (i + 1)
                (lowFreqEnergy, f32 (midFreqEnergy + diff), highFreqEnergy)
            else
              spectral_loop samples sampleCount (i + 1)
                (lowFreqEnergy, midFreqEnergy, f32 (highFreqEnergy + diff)))
      else (lowFreqEnergy, midFreqEnergy, highFreqEnergy))"
  by pat_completeness auto
termination
  by (relation "measure (\<lambda>(samples, sampleCount, i, acc). sampleCount div 4 - i)") auto

declare spectral_loop.simps [simp del]

text \<open>
  \<open>sampleCount\<close> is the length of the block. For an empty block the source divides
  \<open>0.0f\<close> by zero; the result is a NaN, the comparison with the floor is false and
  control goes on to the spectral test: hence the guard \<open>sampleCount \<noteq> 0\<close>. The constants
  \<^verbatim>\<open>0.2f\<close> and \<^verbatim>\<open>0.8f\<close> are the binary32 numbers nearest to 0.2 and 0.8; the floor
  \<^verbatim>\<open>20000000.0f\<close> and the integer 5000 are binary32 numbers themselves.
\<close>

definition detectSpeechActivity :: "16 word list \<Rightarrow> bool" where
  "detectSpeechActivity samples =
     (let sampleCount = length samples;
          totalEnergy = f32 (energy_sum samples 0 / float_of_int (int sampleCount))
      in if sampleCount \<noteq> 0 \<and> totalEnergy < 20000000 then False
         else
           (case spectral_loop samples sampleCount 1 (0, 0, 0) of
              (lowFreqEnergy, midFreqEnergy, highFreqEnergy) \<Rightarrow>
                (let totalSpectralEnergy =
                       f32 (f32 (lowFreqEnergy + midFreqEnergy) + highFreqEnergy)
                 in if totalSpectralEnergy < float_of_int 5000 then False
                    else
                      (let midRatio = f32 (midFreqEnergy / totalSpectralEnergy)
                       in midRatio > f32 (2 / 10) \<and> midRatio < f32 (8 / 10)))))"

subsection \<open>Photo capture and upload in \<^verbatim>\<open>loop_app\<close>\<close>

text \<open>\<open>frame\<close> is what \<^verbatim>\<open>esp_camera_fb_get\<close> returns: the frame's bytes, or no buffer.\<close>

definition take_photo :: "8 word list option \<Rightarrow> app \<Rightarrow> bool \<times> app" where
  "take_photo frame s =
     (let s = (case fb s of
                 Some old \<Rightarrow>
                   (emit (CameraReturn old) (println msg_releasing_previous s))
                     \<lparr>fb := None\<rparr>
               | None \<Rightarrow> s);
          s = println msg_capturing_photo s;
          s = (emit CameraGet s)\<lparr>fb := frame\<rparr>
      in if fb s = None then (False, println msg_capture_failed s)
         else (True, println msg_photo_captured s))"

definition capture_photo_step :: "32 word \<Rightarrow> 8 word list option \<Rightarrow> app \<Rightarrow> app" where
  "capture_photo_step now frame s =
     (if isCapturingPhotos s \<and> \<not> photoDataUploading s \<and> connected s then
        (if captureInterval s = 0 \<or> now - lastCaptureTime s \<ge> word_of_int (captureInterval s) then
           (let s = (if captureInterval s = 0 then s\<lparr>isCapturingPhotos := False\<rparr> else s);
                s = println msg_interval_reached s
            in case take_photo frame s of
                 (True, s) \<Rightarrow>
                   (println msg_capture_successful s)
                     \<lparr>photoDataUploading := True,
                      sent_photo_bytes := 0,
                      sent_photo_frames := 0,
                      lastCaptureTime := now\<rparr>
               | (False, s) \<Rightarrow> s)
         else s)
      else s)"

definition upload_photo_step :: "app \<Rightarrow> app" where
  "upload_photo_step s =
     (case fb s of
        None \<Rightarrow> s
      | Some frame \<Rightarrow>
          if photoDataUploading s then
            (let remaining = (word_of_nat (length frame) :: 32 word) - sent_photo_bytes s
             in if remaining > 0 then
                  (let isTouchRecording = (touchState s = TOUCH_RECORDING_ACTIVE \<or>
                                           touchState s = TOUCH_RECORDING_SILENCE);
                       header = [ucast (sent_photo_frames s AND 0xFF) :: 8 word,
                                 ucast (drop_bit 8 (sent_photo_frames s) AND 0xFF)];
                       bytes_to_copy = (if remaining > 200 then 200 else remaining);
                       payload = take (unat bytes_to_copy) (drop (unat (sent_photo_bytes s)) frame);
                       s = emit (PhotoNotify (header @ payload)) s;
                       s = s\<lparr>sent_photo_bytes := sent_photo_bytes s + bytes_to_copy,
                              sent_photo_frames := sent_photo_frames s + 1\<rparr>
                   in if \<not> isTouchRecording \<or> unat (sent_photo_frames s) mod 10 = 0
                      then println msg_uploading_chunk s else s)
                else
                  (let s = emit (PhotoNotify [0xFF, 0xFF]) s;
                       s = println msg_upload_complete s;
                       s = s\<lparr>photoDataUploading := False\<rparr>;
                       s = (emit (CameraReturn frame) s)\<lparr>fb := None\<rparr>
                   in println msg_frame_buffer_freed s))
          else s)"

text \<open>
  One pass of \<^verbatim>\<open>loop_app\<close>, in the source's order: touch state machine, audio poll,
  capture, one upload chunk. Of the fields of \<open>app\<close>, the button, LED, battery and sleep
  calls between them write only \<open>ledMode\<close>, which no modelled function reads: in the model
  \<open>ledMode\<close> holds what \<open>handleTouchSensor\<close> wrote last. A power-off through
  \<^verbatim>\<open>shutdownDevice\<close> ends the run.
\<close>

definition loop_app :: "config \<Rightarrow> inputs \<Rightarrow> app \<Rightarrow> app" where
  "loop_app cfg inp s =
     (let s = handleTouchSensor cfg (millis_touch inp) (touchRead inp) s;
          s = processAudio cfg (i2s_ok inp) (i2s_data inp) s;
          s = capture_photo_step (millis_loop inp) (camera_frame inp) s
      in upload_photo_step s)"

subsection \<open>BLE callbacks\<close>

definition release_fb :: "app \<Rightarrow> app" where
  "release_fb s = (case fb s of Some old \<Rightarrow> (emit (CameraReturn old) s)\<lparr>fb := None\<rparr> | None \<Rightarrow> s)"

definition handlePhotoControl :: "config \<Rightarrow> 32 word \<Rightarrow> int \<Rightarrow> app \<Rightarrow> app" where
  "handlePhotoControl cfg now controlValue s =
     (if controlValue = - 1 then
        (let s = s\<lparr>photoDataUploading := False, sent_photo_bytes := 0, sent_photo_frames := 0\<rparr>;
             s = release_fb s
         in s\<lparr>isCapturingPhotos := True, captureInterval := 0\<rparr>)
      else if controlValue = 0 then
        (let s = s\<lparr>isCapturingPhotos := False, photoDataUploading := False,
                   sent_photo_bytes := 0, sent_photo_frames := 0, captureInterval := 0\<rparr>
         in release_fb s)
      else if 5 \<le> controlValue \<and> controlValue \<le> 300 then
        (let s = s\<lparr>photoDataUploading := False, sent_photo_bytes := 0, sent_photo_frames := 0\<rparr>;
             s = release_fb s;
             s = s\<lparr>captureInterval := PHOTO_CAPTURE_INTERVAL_MS cfg\<rparr>
         in s\<lparr>isCapturingPhotos := True,
              lastCaptureTime := now - word_of_int (captureInterval s)\<rparr>)
      else s)"

definition startVoiceActivation :: "app \<Rightarrow> app" where
  "startVoiceActivation s =
     (if \<not> microphoneInitialized s then s
      else s\<lparr>voiceActivationEnabled := True, listeningForWakeWord := False,
             recordingCommand := False, audioBufferIndex := 0\<rparr>)"

definition stopVoiceActivation :: "app \<Rightarrow> app" where
  "stopVoiceActivation s =
     s\<lparr>voiceActivationEnabled := False, listeningForWakeWord := False,
       recordingCommand := False, audioBufferIndex := 0\<rparr>"

definition startRecordingCommand :: "app \<Rightarrow> app" where
  "startRecordingCommand s =
     (if \<not> voiceActivationEnabled s then s
      else s\<lparr>listeningForWakeWord := False, recordingCommand := True, audioBufferIndex := 0\<rparr>)"

definition handleAudioControl :: "int \<Rightarrow> app \<Rightarrow> app" where
  "handleAudioControl controlValue s =
     (if controlValue = 1 then startVoiceActivation s
      else if controlValue = 0 then stopVoiceActivation s
      else if controlValue = 2 then startRecordingCommand s
      else s)"

datatype ble_event = OnConnect | OnDisconnect | PhotoControl "8 word" | AudioControl "8 word"

definition ble_callback :: "config \<Rightarrow> 32 word \<Rightarrow> ble_event \<Rightarrow> app \<Rightarrow> app" where
  "ble_callback cfg now ev s =
     (case ev of
        OnConnect \<Rightarrow> s\<lparr>connected := True\<rparr>
      | OnDisconnect \<Rightarrow> s\<lparr>connected := False\<rparr>
      | PhotoControl v \<Rightarrow> handlePhotoControl cfg now (sint v) s
      | AudioControl v \<Rightarrow> handleAudioControl (sint v) s)"

subsection \<open>Runs of the device\<close>

text \<open>
  The globals as their declarations initialise them, after \<^verbatim>\<open>setup_app\<close>: \<open>mic\<close> tells
  whether \<^verbatim>\<open>configureMicrophone\<close> succeeded (\<^verbatim>\<open>setup_app\<close> then calls
  \<^verbatim>\<open>startVoiceActivation\<close>); \<^verbatim>\<open>configure_ble\<close> creates the audio characteristic.
\<close>

definition boot :: "config \<Rightarrow> bool \<Rightarrow> app" where
  "boot cfg mic =
     \<lparr>touchState = TOUCH_IDLE, lastTouchTime = 0, touchRecordingStartTime = 0,
      lastSpeechTime = 0, silenceStartTime = 0, touchActivationMode = True,
      ledMode = LED_BOOT_SEQUENCE, fb = None,
      microphoneInitialized = mic, voiceActivationEnabled = mic,
      listeningForWakeWord = False, recordingCommand = False,
      currentAudioLevel = 0, peakAudioLevel = 0,
      audioBuffer = replicate (I2S_READ_LEN cfg) 0,
      bleAudioBuffer = replicate AUDIO_BUFFER_SIZE 0,
      touchAudioAccum = replicate TOUCH_AUDIO_MAX_BYTES 0,
      touchAudioAccumIndex = 0, audioBufferIndex = 0,
      audioDataCharacteristic = True, connected = False,
      isCapturingPhotos = False, captureInterval = 0, lastCaptureTime = 0,
      sent_photo_bytes = 0, sent_photo_frames = 0, photoDataUploading = False,
      trace = []\<rparr>"

text \<open>
  A run interleaves passes of the loop with BLE callbacks (which the BLE stack delivers
  between the statements of the loop; the model delivers them between passes).
\<close>

datatype step = Tick inputs | Ble "32 word" ble_event

fun run :: "config \<Rightarrow> step list \<Rightarrow> app \<Rightarrow> app" where
  "run cfg [] s = s"
| "run cfg (Tick inp # steps) s = run cfg steps (loop_app cfg inp s)"
| "run cfg (Ble now ev # steps) s = run cfg steps (ble_callback cfg now ev s)"

subsection \<open>Observations on traces\<close>

fun is_PhotoNotify :: "event \<Rightarrow> bool" where
  "is_PhotoNotify (PhotoNotify _) = True"
| "is_PhotoNotify _ = False"

text \<open>The photo notifications of a trace, in order, and the number of capture requests.\<close>

definition photo_notifies :: "event list \<Rightarrow> event list" where
  "photo_notifies tr = filter is_PhotoNotify tr"

definition camera_gets :: "event list \<Rightarrow> nat" where
  "camera_gets tr = length (filter (\<lambda>e. e = CameraGet) tr)"

text \<open>
  The notification expected for chunk \<open>i\<close> of a frame: the chunk index in two bytes, low
  byte first, and the next 200 bytes of the frame (fewer at its end).
\<close>

definition photo_chunk :: "8 word list \<Rightarrow> nat \<Rightarrow> event" where
  "photo_chunk frame i =
     PhotoNotify ([ucast ((word_of_nat i :: 32 word) AND 0xFF),
                   ucast (drop_bit 8 (word_of_nat i :: 32 word) AND 0xFF)]
                  @ take 200 (drop (200 * i) frame))"

text \<open>An upload of \<open>frame\<close> that has sent \<open>j\<close> chunks and goes on.\<close>

definition uploading_chunk :: "8 word list \<Rightarrow> nat \<Rightarrow> app \<Rightarrow> bool" where
  "uploading_chunk frame j s \<longleftrightarrow>
     fb s = Some frame \<and> photoDataUploading s \<and>
     unat (sent_photo_bytes s) = min (length frame) (200 * j) \<and>
     sent_photo_frames s = word_of_nat j"

text \<open>
  The bounds of the session buffer: the write cursor within the capacity, the two arrays
  at their declared sizes.
\<close>

definition buffer_inv :: "config \<Rightarrow> app \<Rightarrow> bool" where
  "buffer_inv cfg s \<longleftrightarrow>
     unat (touchAudioAccumIndex s) \<le> TOUCH_AUDIO_MAX_BYTES \<and>
     length (touchAudioAccum s) = TOUCH_AUDIO_MAX_BYTES \<and>
     length (audioBuffer s) = I2S_READ_LEN cfg"

text \<open>
  The pass of \<open>processAudio\<close> gets and processes a block: the microphone and the voice
  path are on, the read succeeded and delivered at least one sample.
\<close>

definition block_processed :: "config \<Rightarrow> bool \<Rightarrow> 16 word list \<Rightarrow> app \<Rightarrow> bool" where
  "block_processed cfg ok data s \<longleftrightarrow>
     microphoneInitialized s \<and> voiceActivationEnabled s \<and> ok \<and>
     take (I2S_READ_LEN cfg) data \<noteq> []"

subsection \<open>The level as a formula\<close>

text \<open>
  The computation of the level written as the spec words it: the mean of the block as DC
  offset, every sample less the offset times the gain, the noise gate, and the root mean
  square of the survivors as a percentage of full scale. \<open>claimed_level\<close> is that formula
  over the real numbers, gating and squaring the gained values themselves.
\<close>

definition block_mean :: "16 word list \<Rightarrow> real" where
  "block_mean samples = (\<Sum>x\<leftarrow>samples. real_of_int (sint x)) / real (length samples)"

definition gained :: "16 word list \<Rightarrow> real list" where
  "gained samples = map (\<lambda>x. (real_of_int (sint x) - block_mean samples) * GAIN) samples"

definition rms_percent :: "real list \<Rightarrow> real" where
  "rms_percent vs =
     (if vs = [] then 0 else sqrt ((\<Sum>v\<leftarrow>vs. v * v) / real (length vs)) / 32768 * 100)"

definition claimed_level :: "16 word list \<Rightarrow> real" where
  "claimed_level samples =
     rms_percent (filter (\<lambda>v. real_of_int NOISE_GATE < \<bar>v\<bar>) (gained samples))"

text \<open>
  The same formula as the source computes it, in single precision. \<open>f32_sum\<close> is a sum
  accumulated from the left, rounded after every addition. \<open>block_mean_f32\<close> is the
  rounded quotient of that sum of the samples by their number; \<open>gained_f32\<close> rounds the
  difference of a sample and the mean, and its product with the gain; \<open>truncated_level\<close>
  converts each gained value to an integer, discarding its fraction, as the source's
  \<^verbatim>\<open>int16_t proc\<close> does, gates the integers, and \<open>rms_percent_f32\<close> takes the rounded
  squares, their \<open>f32_sum\<close>, and rounds the quotient, the root, the division by 32768 and
  the product with 100. \<open>in_int16_range\<close> says that no converted value leaves the range
  of \<^verbatim>\<open>int16_t\<close>.
\<close>

definition f32_sum :: "real list \<Rightarrow> real" where
  "f32_sum vs = foldl (\<lambda>a v. f32 (a + v)) 0 vs"

definition block_mean_f32 :: "16 word list \<Rightarrow> real" where
  "block_mean_f32 samples =
     f32 (f32_sum (map (\<lambda>x. real_of_int (sint x)) samples) / f32 (real (length samples)))"

definition gained_f32 :: "16 word list \<Rightarrow> real list" where
  "gained_f32 samples =
     map (\<lambda>x. f32 (f32 (real_of_int (sint x) - block_mean_f32 samples) * GAIN)) samples"

definition rms_percent_f32 :: "int list \<Rightarrow> real" where
  "rms_percent_f32 ps =
     (if ps = [] then 0
      else f32 (f32 (f32 (sqrt (f32 (f32_sum (map (\<lambda>p. f32 (real_of_int (p * p))) ps)
                                    / f32 (real (length ps)))))
                     / 32768) * 100))"

definition truncated_level :: "16 word list \<Rightarrow> real" where
  "truncated_level samples =
     rms_percent_f32
       (filter (\<lambda>p. NOISE_GATE < \<bar>p\<bar>) (map trunc_toward_zero (gained_f32 samples)))"

definition in_int16_range :: "16 word list \<Rightarrow> bool" where
  "in_int16_range samples \<longleftrightarrow>
     (\<forall>v \<in> set (gained_f32 samples).
        - 32768 \<le> trunc_toward_zero v \<and> trunc_toward_zero v \<le> 32767)"

subsection \<open>The speech classifier as a formula\<close>

text \<open>
  The quantities that the spec names, over the real numbers: the mean-square energy of
  the raw block, the absolute difference of successive samples, its sums over the three
  contiguous index ranges that the loop of \<open>detectSpeechActivity\<close> distinguishes (the loop
  starts at index 1 and ends before a quarter of the block), their total and the share of
  the middle one.
\<close>

definition mean_square :: "16 word list \<Rightarrow> real" where
  "mean_square samples = (\<Sum>x\<leftarrow>samples. real_of_int (sint x * sint x)) / real (length samples)"

definition succ_diff :: "16 word list \<Rightarrow> nat \<Rightarrow> real" where
  "succ_diff samples i =
     \<bar>real_of_int (sint (samples ! i)) - real_of_int (sint (samples ! (i - 1)))\<bar>"

definition band_energy :: "16 word list \<Rightarrow> nat \<Rightarrow> nat \<Rightarrow> real" where
  "band_energy samples lo hi = (\<Sum>i\<leftarrow>[lo..<hi]. succ_diff samples i)"

definition low_band :: "16 word list \<Rightarrow> real" where
  "low_band samples = band_energy samples 1 (length samples div 12)"

definition mid_band :: "16 word list \<Rightarrow> real" where
  "mid_band samples =
     band_energy samples (max 1 (length samples div 12)) (length samples div 6)"

definition high_band :: "16 word list \<Rightarrow> real" where
  "high_band samples =
     band_energy samples (max 1 (length samples div 6)) (length samples div 4)"

definition spectral_total :: "16 word list \<Rightarrow> real" where
  "spectral_total samples = low_band samples + mid_band samples + high_band samples"

definition mid_fraction :: "16 word list \<Rightarrow> real" where
  "mid_fraction samples = mid_band samples / spectral_total samples"

text \<open>
  The same quantities as the source computes them, in single precision: every square is
  rounded, every sum is an \<open>f32_sum\<close> in the order of the indices, the total adds the low
  and the middle band first, and the mean and the share are rounded quotients. (The
  difference of two 16-bit samples is a binary32 number, so \<open>succ_diff\<close> needs no
  rounding.)
\<close>

definition mean_square_f32 :: "16 word list \<Rightarrow> real" where
  "mean_square_f32 samples =
     f32 (f32_sum (map (\<lambda>x. f32 (real_of_int (sint x * sint x))) samples)
          / f32 (real (length samples)))"

definition band_energy_f32 :: "16 word list \<Rightarrow> nat \<Rightarrow> nat \<Rightarrow> real" where
  "band_energy_f32 samples lo hi = f32_sum (map (succ_diff samples) [lo..<hi])"

definition low_band_f32 :: "16 word list \<Rightarrow> real" where
  "low_band_f32 samples = band_energy_f32 samples 1 (length samples div 12)"

definition mid_band_f32 :: "16 word list \<Rightarrow> real" where
  "mid_band_f32 samples =
     band_energy_f32 samples (max 1 (length samples div 12)) (length samples div 6)"

definition high_band_f32 :: "16 word list \<Rightarrow> real" where
  "high_band_f32 samples =
     band_energy_f32 samples (max 1 (length samples div 6)) (length samples div 4)"

definition spectral_total_f32 :: "16 word list \<Rightarrow> real" where
  "spectral_total_f32 samples =
     f32 (f32 (low_band_f32 samples + mid_band_f32 samples) + high_band_f32 samples)"

definition mid_fraction_f32 :: "16 word list \<Rightarrow> real" where
  "mid_fraction_f32 samples = f32 (mid_band_f32 samples / spectral_total_f32 samples)"

subsection \<open>Concrete configuration, states and inputs\<close>

text \<open>
  Modelled from the spec: \<^verbatim>\<open>config.h\<close> is not among the sources. The values follow the
  defaults the spec names (debounce of 50 ms, silence duration of 4 s, safety ceiling of
  30 s, silence threshold of 10 percent); the spec names no default for the minimum
  recording time, the touch threshold, the capture interval and the block size. This
  configuration is only used to evaluate the model on concrete inputs.
\<close>

definition spec_config :: config where
  "spec_config =
     \<lparr>TOUCH_THRESHOLD = 40, TOUCH_DEBOUNCE_MS = 50, TOUCH_SILENCE_DURATION_MS = 4000,
      TOUCH_MIN_RECORDING_MS = 5000, TOUCH_ACTIVATION_TIMEOUT = 30000,
      SILENCE_THRESHOLD = 10, PHOTO_CAPTURE_INTERVAL_MS = 30000, I2S_READ_LEN = 512\<rparr>"

text \<open>Recording since 1000 ms, speech still going on, read at 31000 ms.\<close>

definition at_ceiling :: app where
  "at_ceiling = (boot spec_config True)
     \<lparr>touchState := TOUCH_RECORDING_ACTIVE, recordingCommand := True,
      touchRecordingStartTime := 1000, lastSpeechTime := 30900, currentAudioLevel := 42\<rparr>"

definition tick_31000 :: inputs where
  "tick_31000 = \<lparr>millis_loop = 31000, millis_touch = 31000, touchRead = 60000,
                 i2s_ok = False, i2s_data = [], camera_frame = None\<rparr>"

text \<open>
  A pass of the loop at time \<open>now\<close> that reads \<open>touchValue\<close> from the touch sensor and the
  block \<open>samples\<close> from the microphone.
\<close>

definition tick :: "32 word \<Rightarrow> 16 word \<Rightarrow> 16 word list \<Rightarrow> step" where
  "tick now touchValue samples =
     Tick \<lparr>millis_loop = now, millis_touch = now, touchRead = touchValue,
           i2s_ok = True, i2s_data = samples, camera_frame = None\<rparr>"

text \<open>
  Two recordings, from the start of the device. The finger goes down at 500 ms and up at
  1000 ms, where a loud block is read; the level falls to 0 with the next block. In the
  first run the machine enters \<open>TOUCH_RECORDING_SILENCE\<close> at 1570 ms: at 5600 ms the
  silence has lasted 4030 ms and the recording 4600 ms. In the second it enters it at
  30950 ms: at 31000 ms the silence has lasted 50 ms and the recording 30 s.
\<close>

definition short_silence :: app where
  "short_silence = run spec_config
     [tick 500 10 [0, 0], tick 1000 60000 [1000, - 1000], tick 1500 60000 [0, 0],
      tick 1570 60000 [0, 0]]
     (boot spec_config True)"

definition late_silence :: app where
  "late_silence = run spec_config
     [tick 500 10 [0, 0], tick 1000 60000 [1000, - 1000], tick 30900 60000 [0, 0],
      tick 30950 60000 [0, 0]]
     (boot spec_config True)"

text \<open>The finger rests on the sensor.\<close>

definition finger_down :: app where
  "finger_down = (boot spec_config True)\<lparr>touchState := TOUCH_DETECTED, lastTouchTime := 900\<rparr>"

text \<open>
  A run that ends with the finger on the sensor, a recording already marked active and
  1024 bytes of an earlier session in the session buffer. During the first recording the
  host writes 1 to the audio control characteristic, which clears \<open>recordingCommand\<close>; the
  recording runs into the safety ceiling and \<open>TOUCH_PROCESSING\<close> finds nothing to flush.
  The finger goes down again at 40 s, and the host writes 2: \<open>recordingCommand\<close> is set.
\<close>

definition finger_down_recording :: app where
  "finger_down_recording = run spec_config
     [tick 1000 10 [0, 0], tick 2000 60000 [0, 0], Ble 2500 (AudioControl 1),
      tick 33000 60000 [0, 0], tick 33070 60000 [0, 0], tick 40000 10 [0, 0],
      Ble 40500 (AudioControl 2)]
     (boot spec_config True)"

text \<open>A session of 64000 bytes reaches \<open>TOUCH_PROCESSING\<close> with no client connected.\<close>

definition offline_session :: app where
  "offline_session = (boot spec_config True)
     \<lparr>touchState := TOUCH_PROCESSING, recordingCommand := True,
      touchRecordingStartTime := 1000, silenceStartTime := 9000,
      touchAudioAccumIndex := 64000, connected := False\<rparr>"

text \<open>A session of 400 bytes reaches \<open>TOUCH_PROCESSING\<close> with a client connected; the
  camera then delivers no frame buffer.\<close>

definition session_done :: app where
  "session_done = (boot spec_config True)
     \<lparr>touchState := TOUCH_PROCESSING, recordingCommand := True,
      touchRecordingStartTime := 1000, silenceStartTime := 9000,
      touchAudioAccumIndex := 400, connected := True\<rparr>"

definition tick_no_frame :: inputs where
  "tick_no_frame = \<lparr>millis_loop = 13000, millis_touch = 13000, touchRead = 60000,
                    i2s_ok = False, i2s_data = [], camera_frame = None\<rparr>"

definition tick_next :: inputs where
  "tick_next = \<lparr>millis_loop = 13070, millis_touch = 13070, touchRead = 60000,
                i2s_ok = False, i2s_data = [], camera_frame = Some [1, 2, 3]\<rparr>"

text \<open>
  A connected device that was asked over the radio for a single photo, the pass in which
  the camera delivers a frame of 1000 bytes (or of 3 bytes), and the state after the pass
  that captured the 1000 bytes.
\<close>

definition frame_1000 :: "8 word list" where
  "frame_1000 = map word_of_nat [0..<1000]"

definition photo_requested :: app where
  "photo_requested = run spec_config [Ble 100 OnConnect, Ble 200 (PhotoControl (- 1))]
     (boot spec_config True)"

definition tick_frame_1000 :: inputs where
  "tick_frame_1000 = \<lparr>millis_loop = 300, millis_touch = 300, touchRead = 60000,
                      i2s_ok = False, i2s_data = [], camera_frame = Some frame_1000\<rparr>"

definition tick_frame_3 :: inputs where
  "tick_frame_3 = \<lparr>millis_loop = 300, millis_touch = 300, touchRead = 60000,
                   i2s_ok = False, i2s_data = [], camera_frame = Some [1, 2, 3]\<rparr>"

definition upload_1000 :: app where
  "upload_1000 = loop_app spec_config tick_frame_1000 photo_requested"

definition tick_quiet :: inputs where
  "tick_quiet = \<lparr>millis_loop = 20000, millis_touch = 20000, touchRead = 60000,
                 i2s_ok = False, i2s_data = [], camera_frame = None\<rparr>"

text \<open>A recording whose session buffer is full, and a block of two silent samples.\<close>

definition session_full :: app where
  "session_full = (boot spec_config True)
     \<lparr>touchState := TOUCH_RECORDING_ACTIVE, recordingCommand := True,
      touchRecordingStartTime := 1000, lastSpeechTime := 7000,
      touchAudioAccumIndex := 192000\<rparr>"

text \<open>The device listens, with a peak of 20 percent so far; a loud block and a silent one.\<close>

definition listening :: app where
  "listening = (boot spec_config True)\<lparr>currentAudioLevel := 3, peakAudioLevel := 20\<rparr>"

definition tick_loud :: inputs where
  "tick_loud = \<lparr>millis_loop = 20000, millis_touch = 20000, touchRead = 60000,
                i2s_ok = True, i2s_data = [1000, - 1000], camera_frame = None\<rparr>"

definition tick_silent :: inputs where
  "tick_silent = \<lparr>millis_loop = 20070, millis_touch = 20070, touchRead = 60000,
                  i2s_ok = True, i2s_data = [0, 0], camera_frame = None\<rparr>"

text \<open>
  A block of 31 samples of 0 and one of 201. Its mean is 201/32; the gained values are
  -100.5 (31 times) and 3115.5. All of them are binary32 numbers, as are the squares,
  their sum and the level that the source computes from them: no operation rounds.
\<close>

definition quiet_block :: "16 word list" where
  "quiet_block = replicate 31 0 @ [201]"

text \<open>
  Two blocks of 24 samples: one that swings between 8000 and -8000 over its first six
  samples, and one that climbs from 8192 to 8512 in steps of 64 and then rests at 8192.
  The loop of \<open>detectSpeechActivity\<close> looks at the indices 1 to 5. For both blocks the
  squares, the differences and their sums are binary32 numbers; the mean square of the
  second and the share of the middle band of both are rounded.
\<close>

definition speech_block :: "16 word list" where
  "speech_block =
     [8000, - 8000, 8000, - 8000, 8000, - 8000, 8000, 8000, 8000, 8000, 8000, 8000,
      8000, 8000, 8000, 8000, 8000, 8000, 8000, 8000, 8000, 8000, 8000, 8000]"

definition steady_block :: "16 word list" where
  "steady_block =
     [8192, 8256, 8320, 8384, 8448, 8512, 8192, 8192, 8192, 8192, 8192, 8192,
      8192, 8192, 8192, 8192, 8192, 8192, 8192, 8192, 8192, 8192, 8192, 8192]"

text \<open>
  Three blocks on which a rounding decides. In the first, 76 samples of 20000 and one of
  20486, the mean 1540486/77 is rounded to 20006.3125, and the 76 gained values become
  -101 where the mean itself would give -100.98. In the other two, of 24 samples each,
  the mean square over the real numbers is 19999998 and 20000002, next to the floor of
  20000000, and the sums of the rounded squares fall on the other side of it.
\<close>

definition rounded_mean_block :: "16 word list" where
  "rounded_mean_block = replicate 76 20000 @ [20486]"

definition rounded_up_block :: "16 word list" where
  "rounded_up_block =
     [4009, - 4009, 4009, - 4009, 4009, - 4009, 4009, - 4009, 4009, - 4009, 4009, - 4009,
      4009, - 4009, 4009, - 4009, 4009, - 5435, 5435, - 5435, 5435, - 5435, 5435, - 5435]"

definition rounded_down_block :: "16 word list" where
  "rounded_down_block =
     [4022, - 4022, 4022, - 4022, 4022, - 4022, 4022, - 4022, 4681, - 4681, 4681, - 4681,
      4681, - 4681, 4681, - 4681, 4681, - 4681, 4681, - 4681, 4681, - 4681, 4681, - 4681]"
section \<open>Properties\<close>

subsection \<open>What each function leaves alone\<close>

lemmas touch_defs =
  handleTouchSensor_def touch_idle_def touch_detected_def touch_recording_active_def
  touch_recording_silence_def touch_processing_def safety_timeout_def sendAudioData_def
  println_def emit_def Let_def

lemma update_audio_level_eq:
  "update_audio_level samples s =
     s\<lparr>currentAudioLevel := audio_level samples,
       peakAudioLevel := max (peakAudioLevel s) (audio_level samples)\<rparr>"
  by (simp add: update_audio_level_def Let_def max_def)

lemma accumulate_touch_audio_eq:
  "accumulate_touch_audio cfg s =
     (if recordingCommand s \<and>
         (touchState s = TOUCH_RECORDING_ACTIVE \<or> touchState s = TOUCH_RECORDING_SILENCE)
      then
        s\<lparr>touchAudioAccum :=
            (if touch_bytes_to_copy cfg (touchAudioAccumIndex s) > 0
             then memcpy (touchAudioAccum s) (unat (touchAudioAccumIndex s))
                    (bytes_of_samples (audioBuffer s))
                    (unat (touch_bytes_to_copy cfg (touchAudioAccumIndex s)))
             else touchAudioAccum s),
          touchAudioAccumIndex :=
            touchAudioAccumIndex s + touch_bytes_to_copy cfg (touchAudioAccumIndex s),
          trace := trace s @
            [Serial (if touch_bytes_to_copy cfg (touchAudioAccumIndex s) > 0
                     then msg_accumulating else msg_buffer_full)]\<rparr>
      else s)"
proof -
  define b where "b = touch_bytes_to_copy cfg (touchAudioAccumIndex s)"
  have z: "\<not> 0 < b \<Longrightarrow> b = 0"
    by (simp add: word_greater_zero_iff)
  show ?thesis
    unfolding accumulate_touch_audio_def Let_def b_def [symmetric] println_def emit_def
    by (cases "0 < b") (auto simp: z)
qed

lemmas processAudio_defs =
  processAudio_def update_audio_level_eq accumulate_touch_audio_eq Let_def

lemma processAudio_touchState [simp]:
  "touchState (processAudio cfg ok data s) = touchState s"
  by (simp add: processAudio_defs)

lemma capture_photo_step_touchState [simp]:
  "touchState (capture_photo_step now frame s) = touchState s"
  by (simp add: capture_photo_step_def take_photo_def Let_def println_def emit_def
        split: option.split prod.split bool.split)

lemma upload_photo_step_touchState [simp]:
  "touchState (upload_photo_step s) = touchState s"
  by (simp add: upload_photo_step_def Let_def println_def emit_def split: option.split)

lemma loop_app_touchState:
  "touchState (loop_app cfg inp s) =
     touchState (handleTouchSensor cfg (millis_touch inp) (touchRead inp) s)"
  by (simp add: loop_app_def Let_def)

lemma sendAudioData_loop_no_photo:
  "filter is_PhotoNotify (sendAudioData_loop d n off) = []"
  by (induction d n off rule: sendAudioData_loop.induct)
     (subst sendAudioData_loop.simps, simp add: Let_def)

lemma sendAudioData_loop_no_camera:
  "filter (\<lambda>e. e = CameraGet) (sendAudioData_loop d n off) = []"
  by (induction d n off rule: sendAudioData_loop.induct)
     (subst sendAudioData_loop.simps, simp add: Let_def)

lemma sendAudioData_trace:
  "sendAudioData d n s =
     s\<lparr>trace := trace s @ (if \<not> connected s \<or> \<not> audioDataCharacteristic s then []
                              else sendAudioData_loop d (unat n) 0)\<rparr>"
  by (simp add: sendAudioData_def)

lemmas touch_frame_defs =
  handleTouchSensor_def touch_idle_def touch_detected_def touch_recording_active_def
  touch_recording_silence_def touch_processing_def safety_timeout_def sendAudioData_trace
  println_def emit_def Let_def

lemmas obs_defs = photo_notifies_def camera_gets_def
  sendAudioData_loop_no_photo sendAudioData_loop_no_camera

lemma handleTouchSensor_photo_frame [simp]:
  "photoDataUploading (handleTouchSensor cfg now tv s) = photoDataUploading s"
  "connected (handleTouchSensor cfg now tv s) = connected s"
  "fb (handleTouchSensor cfg now tv s) = fb s"
  "sent_photo_bytes (handleTouchSensor cfg now tv s) = sent_photo_bytes s"
  "sent_photo_frames (handleTouchSensor cfg now tv s) = sent_photo_frames s"
  "lastCaptureTime (handleTouchSensor cfg now tv s) = lastCaptureTime s"
  "photo_notifies (trace (handleTouchSensor cfg now tv s)) = photo_notifies (trace s)"
  "camera_gets (trace (handleTouchSensor cfg now tv s)) = camera_gets (trace s)"
  by (cases "touchState s"; simp add: touch_frame_defs obs_defs)+

lemma processAudio_photo_frame [simp]:
  "photoDataUploading (processAudio cfg ok data s) = photoDataUploading s"
  "connected (processAudio cfg ok data s) = connected s"
  "fb (processAudio cfg ok data s) = fb s"
  "sent_photo_bytes (processAudio cfg ok data s) = sent_photo_bytes s"
  "sent_photo_frames (processAudio cfg ok data s) = sent_photo_frames s"
  "lastCaptureTime (processAudio cfg ok data s) = lastCaptureTime s"
  "isCapturingPhotos (processAudio cfg ok data s) = isCapturingPhotos s"
  "captureInterval (processAudio cfg ok data s) = captureInterval s"
  "recordingCommand (processAudio cfg ok data s) = recordingCommand s"
  "photo_notifies (trace (processAudio cfg ok data s)) = photo_notifies (trace s)"
  "camera_gets (trace (processAudio cfg ok data s)) = camera_gets (trace s)"
  by (simp_all add: processAudio_defs obs_defs)

lemma touch_processing_entry:
  assumes "touchState s = TOUCH_PROCESSING" "recordingCommand s" "\<not> isCapturingPhotos s"
  shows "touchState (handleTouchSensor cfg now tv s) = TOUCH_PROCESSING"
        "\<not> recordingCommand (handleTouchSensor cfg now tv s)"
        "isCapturingPhotos (handleTouchSensor cfg now tv s)"
        "captureInterval (handleTouchSensor cfg now tv s) = 0"
  using assms by (simp_all add: touch_defs)

lemma touch_processing_exit:
  assumes "touchState s = TOUCH_PROCESSING" "\<not> recordingCommand s" "\<not> isCapturingPhotos s"
  shows "touchState (handleTouchSensor cfg now tv s) = TOUCH_IDLE"
        "\<not> recordingCommand (handleTouchSensor cfg now tv s)"
        "\<not> isCapturingPhotos (handleTouchSensor cfg now tv s)"
  using assms by (simp_all add: touch_defs)

lemma capture_photo_step_failed:
  assumes "isCapturingPhotos s" "captureInterval s = 0" "\<not> photoDataUploading s" "connected s"
  shows "\<not> isCapturingPhotos (capture_photo_step now None s)"
        "\<not> photoDataUploading (capture_photo_step now None s)"
        "fb (capture_photo_step now None s) = None"
        "recordingCommand (capture_photo_step now None s) = recordingCommand s"
        "photo_notifies (trace (capture_photo_step now None s)) = photo_notifies (trace s)"
        "camera_gets (trace (capture_photo_step now None s)) = camera_gets (trace s) + 1"
  using assms
  by (simp_all add: capture_photo_step_def take_photo_def Let_def println_def emit_def obs_defs
        split: option.split)

lemma capture_photo_step_idle:
  assumes "\<not> isCapturingPhotos s"
  shows "capture_photo_step now frame s = s"
  using assms by (simp add: capture_photo_step_def)

lemma upload_photo_step_idle:
  assumes "\<not> photoDataUploading s"
  shows "upload_photo_step s = s"
  using assms by (simp add: upload_photo_step_def split: option.split)

subsection \<open>One pass of the photo upload\<close>

lemma upload_remaining:
  assumes "length frame < 2 ^ 32" and "unat sent \<le> length frame"
  shows "unat ((word_of_nat (length frame) :: 32 word) - sent) = length frame - unat sent"
proof -
  have n: "unat (word_of_nat (length frame) :: 32 word) = length frame"
    using assms(1) by (simp add: unat_of_nat)
  have "sent \<le> word_of_nat (length frame)"
    using assms(2) n by (simp add: word_le_nat_alt)
  then show ?thesis
    by (simp add: unat_sub n)
qed

lemma upload_photo_step_chunk:
  assumes "fb s = Some frame" and "photoDataUploading s"
      and "length frame < 2 ^ 32" and "unat (sent_photo_bytes s) < length frame"
  shows "photo_notifies (trace (upload_photo_step s)) =
           photo_notifies (trace s) @
             [PhotoNotify ([ucast (sent_photo_frames s AND 0xFF),
                            ucast (drop_bit 8 (sent_photo_frames s) AND 0xFF)]
                           @ take 200 (drop (unat (sent_photo_bytes s)) frame))]"
    and "unat (sent_photo_bytes (upload_photo_step s)) =
           min (length frame) (unat (sent_photo_bytes s) + 200)"
    and "sent_photo_frames (upload_photo_step s) = sent_photo_frames s + 1"
    and "photoDataUploading (upload_photo_step s)"
    and "fb (upload_photo_step s) = Some frame"
    and "camera_gets (trace (upload_photo_step s)) = camera_gets (trace s)"
proof -
  let ?r = "(word_of_nat (length frame) :: 32 word) - sent_photo_bytes s"
  let ?b = "if ?r > 200 then 200 else ?r"
  have r: "unat ?r = length frame - unat (sent_photo_bytes s)"
    using assms(3,4) by (simp add: upload_remaining)
  have pos: "?r > 0"
    using r assms(4) by (simp add: word_less_nat_alt)
  have b: "unat ?b = min 200 (length frame - unat (sent_photo_bytes s))"
    using r by (auto simp: word_less_nat_alt)
  have payload: "take (unat ?b) (drop (unat (sent_photo_bytes s)) frame)
                   = take 200 (drop (unat (sent_photo_bytes s)) frame)"
    unfolding b by (simp add: min_def)
  have sent: "unat (sent_photo_bytes s + ?b) = min (length frame) (unat (sent_photo_bytes s) + 200)"
  proof -
    define c where "c = ?b"
    have c: "unat c = min 200 (length frame - unat (sent_photo_bytes s))"
      unfolding c_def by (rule b)
    have "unat (sent_photo_bytes s) + unat c < 2 ^ LENGTH(32)"
      unfolding c using assms(3,4) by simp
    then have "unat (sent_photo_bytes s + c) = unat (sent_photo_bytes s) + unat c"
      by (rule unat_add_lem [THEN iffD1])
    then have "unat (sent_photo_bytes s + c) = min (length frame) (unat (sent_photo_bytes s) + 200)"
      unfolding c using assms(4) by simp
    then show ?thesis unfolding c_def .
  qed
  have step: "upload_photo_step s =
     (let s' = (emit (PhotoNotify ([ucast (sent_photo_frames s AND 0xFF),
                            ucast (drop_bit 8 (sent_photo_frames s) AND 0xFF)]
                           @ take 200 (drop (unat (sent_photo_bytes s)) frame))) s)
                 \<lparr>sent_photo_bytes := sent_photo_bytes s + ?b,
                  sent_photo_frames := sent_photo_frames s + 1\<rparr>
      in if \<not> (touchState s = TOUCH_RECORDING_ACTIVE \<or> touchState s = TOUCH_RECORDING_SILENCE)
            \<or> unat (sent_photo_frames s + 1) mod 10 = 0
         then println msg_uploading_chunk s' else s')"
    using assms(1,2) pos payload
    by (simp add: upload_photo_step_def Let_def emit_def println_def)
  show "photo_notifies (trace (upload_photo_step s)) =
           photo_notifies (trace s) @
             [PhotoNotify ([ucast (sent_photo_frames s AND 0xFF),
                            ucast (drop_bit 8 (sent_photo_frames s) AND 0xFF)]
                           @ take 200 (drop (unat (sent_photo_bytes s)) frame))]"
    unfolding step by (simp add: Let_def emit_def println_def photo_notifies_def)
  show "unat (sent_photo_bytes (upload_photo_step s)) =
           min (length frame) (unat (sent_photo_bytes s) + 200)"
    unfolding step using sent by (simp add: Let_def emit_def println_def)
  show "sent_photo_frames (upload_photo_step s) = sent_photo_frames s + 1"
    unfolding step by (simp add: Let_def emit_def println_def)
  show "photoDataUploading (upload_photo_step s)"
    unfolding step using assms(2) by (simp add: Let_def emit_def println_def)
  show "fb (upload_photo_step s) = Some frame"
    unfolding step using assms(1) by (simp add: Let_def emit_def println_def)
  show "camera_gets (trace (upload_photo_step s)) = camera_gets (trace s)"
    unfolding step by (simp add: Let_def emit_def println_def camera_gets_def)
qed

lemma upload_photo_step_marker:
  assumes "fb s = Some frame" and "photoDataUploading s"
      and "length frame < 2 ^ 32" and "unat (sent_photo_bytes s) = length frame"
  shows "photo_notifies (trace (upload_photo_step s)) =
           photo_notifies (trace s) @ [PhotoNotify [0xFF, 0xFF]]"
    and "\<not> photoDataUploading (upload_photo_step s)"
    and "fb (upload_photo_step s) = None"
    and "sent_photo_bytes (upload_photo_step s) = sent_photo_bytes s"
    and "sent_photo_frames (upload_photo_step s) = sent_photo_frames s"
    and "camera_gets (trace (upload_photo_step s)) = camera_gets (trace s)"
proof -
  have "unat ((word_of_nat (length frame) :: 32 word) - sent_photo_bytes s) = 0"
    using assms(3,4) by (simp add: upload_remaining)
  then have z: "(word_of_nat (length frame) :: 32 word) - sent_photo_bytes s = 0"
    by (simp add: unat_eq_0)
  show "photo_notifies (trace (upload_photo_step s)) =
           photo_notifies (trace s) @ [PhotoNotify [0xFF, 0xFF]]"
    and "\<not> photoDataUploading (upload_photo_step s)"
    and "fb (upload_photo_step s) = None"
    and "sent_photo_bytes (upload_photo_step s) = sent_photo_bytes s"
    and "sent_photo_frames (upload_photo_step s) = sent_photo_frames s"
    and "camera_gets (trace (upload_photo_step s)) = camera_gets (trace s)"
    using assms(1,2) z
    by (simp_all add: upload_photo_step_def Let_def emit_def println_def obs_defs)
qed

lemma loop_app_while_uploading:
  assumes "photoDataUploading s"
  shows "loop_app cfg inp s =
           upload_photo_step
             (processAudio cfg (i2s_ok inp) (i2s_data inp)
                (handleTouchSensor cfg (millis_touch inp) (touchRead inp) s))"
  using assms by (simp add: loop_app_def Let_def capture_photo_step_def)

lemma loop_app_chunk:
  assumes "uploading_chunk frame j s" and "length frame < 2 ^ 32" and "200 * j < length frame"
  shows "uploading_chunk frame (Suc j) (loop_app cfg inp s)"
    and "photo_notifies (trace (loop_app cfg inp s)) = photo_notifies (trace s) @ [photo_chunk frame j]"
proof -
  let ?b = "processAudio cfg (i2s_ok inp) (i2s_data inp)
                (handleTouchSensor cfg (millis_touch inp) (touchRead inp) s)"
  have s: "fb s = Some frame" "photoDataUploading s" "unat (sent_photo_bytes s) = 200 * j"
          "sent_photo_frames s = word_of_nat j"
    using assms(1,3) by (simp_all add: uploading_chunk_def)
  have b: "fb ?b = Some frame" "photoDataUploading ?b" "unat (sent_photo_bytes ?b) < length frame"
    using s assms(3) by simp_all
  note c = upload_photo_step_chunk [OF b(1,2) assms(2) b(3)]
  have l: "loop_app cfg inp s = upload_photo_step ?b"
    using s(2) by (rule loop_app_while_uploading)
  show "uploading_chunk frame (Suc j) (loop_app cfg inp s)"
    unfolding l uploading_chunk_def using c s by (simp add: min_def)
  show "photo_notifies (trace (loop_app cfg inp s)) = photo_notifies (trace s) @ [photo_chunk frame j]"
    unfolding l using c(1) s by (simp add: photo_chunk_def)
qed

lemma loop_app_marker:
  assumes "uploading_chunk frame j s" and "length frame < 2 ^ 32" and "length frame \<le> 200 * j"
  shows "photo_notifies (trace (loop_app cfg inp s)) = photo_notifies (trace s) @ [PhotoNotify [0xFF, 0xFF]]"
    and "\<not> photoDataUploading (loop_app cfg inp s)"
    and "fb (loop_app cfg inp s) = None"
proof -
  let ?b = "processAudio cfg (i2s_ok inp) (i2s_data inp)
                (handleTouchSensor cfg (millis_touch inp) (touchRead inp) s)"
  have s: "fb s = Some frame" "photoDataUploading s" "unat (sent_photo_bytes s) = length frame"
    using assms(1,3) by (simp_all add: uploading_chunk_def)
  have b: "fb ?b = Some frame" "photoDataUploading ?b" "unat (sent_photo_bytes ?b) = length frame"
    using s by simp_all
  note c = upload_photo_step_marker [OF b(1,2) assms(2) b(3)]
  have l: "loop_app cfg inp s = upload_photo_step ?b"
    using s(2) by (rule loop_app_while_uploading)
  show "photo_notifies (trace (loop_app cfg inp s)) = photo_notifies (trace s) @ [PhotoNotify [0xFF, 0xFF]]"
    and "\<not> photoDataUploading (loop_app cfg inp s)"
    and "fb (loop_app cfg inp s) = None"
    unfolding l using c by simp_all
qed

lemma run_chunks:
  assumes "uploading_chunk frame j s" and "length frame < 2 ^ 32"
      and "200 * (j + length inps) < length frame + 200"
  shows "uploading_chunk frame (j + length inps) (run cfg (map Tick inps) s)
       \<and> photo_notifies (trace (run cfg (map Tick inps) s)) =
           photo_notifies (trace s) @ map (photo_chunk frame) [j..<j + length inps]"
  using assms
proof (induction inps arbitrary: j s)
  case Nil
  then show ?case by simp
next
  case (Cons inp inps)
  have lt: "200 * j < length frame"
    using Cons.prems(3) by simp
  note step = loop_app_chunk [OF Cons.prems(1,2) lt, of cfg inp]
  have "200 * (Suc j + length inps) < length frame + 200"
    using Cons.prems(3) by simp
  from Cons.IH [OF step(1) Cons.prems(2) this]
  have ih: "uploading_chunk frame (Suc j + length inps) (run cfg (map Tick inps) (loop_app cfg inp s))"
           "photo_notifies (trace (run cfg (map Tick inps) (loop_app cfg inp s))) =
              photo_notifies (trace (loop_app cfg inp s)) @
              map (photo_chunk frame) [Suc j..<Suc j + length inps]"
    by simp_all
  have upt: "[j..<j + length (inp # inps)] = j # [Suc j..<Suc j + length inps]"
    by (simp add: upt_conv_Cons del: upt_Suc)
  show ?case
    unfolding upt using ih step(2) by simp
qed

lemma run_append:
  "run cfg (xs @ ys) s = run cfg ys (run cfg xs s)"
  by (induction cfg xs s rule: run.induct) simp_all

lemma chunk_count_bounds:
  fixes n :: nat
  shows "200 * ((n + 199) div 200) < n + 200" and "n \<le> 200 * ((n + 199) div 200)"
proof -
  define q where "q = (n + 199) div 200"
  define r where "r = (n + 199) mod 200"
  have "200 * q + r = n + 199"
    unfolding q_def r_def by (rule mult_div_mod_eq)
  moreover have "r < 200"
    unfolding r_def by simp
  ultimately have "200 * q < n + 200" and "n \<le> 200 * q"
    by linarith+
  then show "200 * ((n + 199) div 200) < n + 200" and "n \<le> 200 * ((n + 199) div 200)"
    unfolding q_def .
qed

lemma upt_0_5: "[0..<5] = [0, 1, 2, 3, 4::nat]"
  by code_simp

subsection \<open>The session buffer\<close>

lemma handleTouchSensor_audio_frame [simp]:
  "peakAudioLevel (handleTouchSensor cfg now tv s) = peakAudioLevel s"
  "currentAudioLevel (handleTouchSensor cfg now tv s) = currentAudioLevel s"
  "touchAudioAccum (handleTouchSensor cfg now tv s) = touchAudioAccum s"
  "audioBuffer (handleTouchSensor cfg now tv s) = audioBuffer s"
  "microphoneInitialized (handleTouchSensor cfg now tv s) = microphoneInitialized s"
  "voiceActivationEnabled (handleTouchSensor cfg now tv s) = voiceActivationEnabled s"
  by (cases "touchState s"; simp add: touch_frame_defs)+

lemma handleTouchSensor_cursor:
  "touchAudioAccumIndex (handleTouchSensor cfg now tv s) = touchAudioAccumIndex s \<or>
   touchAudioAccumIndex (handleTouchSensor cfg now tv s) = 0"
  by (cases "touchState s"; simp add: touch_frame_defs)

lemma capture_photo_step_audio_frame [simp]:
  "peakAudioLevel (capture_photo_step now frame s) = peakAudioLevel s"
  "currentAudioLevel (capture_photo_step now frame s) = currentAudioLevel s"
  "touchAudioAccum (capture_photo_step now frame s) = touchAudioAccum s"
  "touchAudioAccumIndex (capture_photo_step now frame s) = touchAudioAccumIndex s"
  "audioBuffer (capture_photo_step now frame s) = audioBuffer s"
  by (simp_all add: capture_photo_step_def take_photo_def Let_def println_def emit_def
        split: option.split prod.split bool.split)

lemma upload_photo_step_audio_frame [simp]:
  "peakAudioLevel (upload_photo_step s) = peakAudioLevel s"
  "currentAudioLevel (upload_photo_step s) = currentAudioLevel s"
  "touchAudioAccum (upload_photo_step s) = touchAudioAccum s"
  "touchAudioAccumIndex (upload_photo_step s) = touchAudioAccumIndex s"
  "audioBuffer (upload_photo_step s) = audioBuffer s"
  by (simp_all add: upload_photo_step_def Let_def println_def emit_def split: option.split)

lemma ble_callback_audio_frame [simp]:
  "peakAudioLevel (ble_callback cfg now ev s) = peakAudioLevel s"
  "currentAudioLevel (ble_callback cfg now ev s) = currentAudioLevel s"
  "touchAudioAccum (ble_callback cfg now ev s) = touchAudioAccum s"
  "touchAudioAccumIndex (ble_callback cfg now ev s) = touchAudioAccumIndex s"
  "audioBuffer (ble_callback cfg now ev s) = audioBuffer s"
  by (cases ev; simp add: ble_callback_def handlePhotoControl_def handleAudioControl_def
        release_fb_def startVoiceActivation_def stopVoiceActivation_def startRecordingCommand_def
        Let_def emit_def split: option.split)+


lemma bytesToCopy_bounds:
  assumes "unat idx \<le> TOUCH_AUDIO_MAX_BYTES"
  shows "unat (touch_bytes_to_copy cfg idx) \<le> TOUCH_AUDIO_MAX_BYTES - unat idx"
    and "unat (touch_bytes_to_copy cfg idx) \<le> 2 * I2S_READ_LEN cfg"
    and "unat (idx + touch_bytes_to_copy cfg idx) = unat idx + unat (touch_bytes_to_copy cfg idx)"
    and "unat idx = TOUCH_AUDIO_MAX_BYTES \<Longrightarrow> touch_bytes_to_copy cfg idx = 0"
proof -
  define cap :: "32 word" where "cap = word_of_nat TOUCH_AUDIO_MAX_BYTES"
  define whole :: "32 word" where "whole = word_of_nat (2 * I2S_READ_LEN cfg)"
  have m: "unat cap = TOUCH_AUDIO_MAX_BYTES"
    unfolding cap_def by (simp add: TOUCH_AUDIO_MAX_BYTES_def)
  have "idx \<le> cap"
    using assms(1) m by (simp add: word_le_nat_alt)
  then have r: "unat (cap - idx) = TOUCH_AUDIO_MAX_BYTES - unat idx"
    by (simp add: unat_sub m)
  have l: "unat whole \<le> 2 * I2S_READ_LEN cfg"
    unfolding whole_def unat_of_nat by (rule mod_less_eq_dividend)
  have b: "unat (touch_bytes_to_copy cfg idx) = min (unat whole) (unat (cap - idx))"
    unfolding touch_bytes_to_copy_def cap_def [symmetric] whole_def [symmetric]
    by (simp add: min_def word_le_nat_alt)
  show 1: "unat (touch_bytes_to_copy cfg idx) \<le> TOUCH_AUDIO_MAX_BYTES - unat idx"
    unfolding b r by simp
  show "unat (touch_bytes_to_copy cfg idx) \<le> 2 * I2S_READ_LEN cfg"
    unfolding b using l by simp
  have "unat idx + unat (touch_bytes_to_copy cfg idx) < 2 ^ LENGTH(32)"
    using 1 assms(1) by (simp add: TOUCH_AUDIO_MAX_BYTES_def)
  then show "unat (idx + touch_bytes_to_copy cfg idx) = unat idx + unat (touch_bytes_to_copy cfg idx)"
    by (rule unat_add_lem [THEN iffD1])
  show "touch_bytes_to_copy cfg idx = 0" if "unat idx = TOUCH_AUDIO_MAX_BYTES"
    using 1 that by (simp add: unat_eq_0)
qed

lemma length_bytes_of_samples [simp]:
  "length (bytes_of_samples xs) = 2 * length xs"
  by (induction xs) (simp_all add: bytes_of_samples_def)

lemma length_memcpy:
  assumes "off + n \<le> length dst" and "n \<le> length src"
  shows "length (memcpy dst off src n) = length dst"
  using assms by (simp add: memcpy_def)

lemma accumulate_touch_audio_inv:
  assumes "buffer_inv cfg s"
  shows "buffer_inv cfg (accumulate_touch_audio cfg s)"
    and "unat (touchAudioAccumIndex s) \<le> unat (touchAudioAccumIndex (accumulate_touch_audio cfg s))"
proof -
  let ?b = "touch_bytes_to_copy cfg (touchAudioAccumIndex s)"
  have i: "unat (touchAudioAccumIndex s) \<le> TOUCH_AUDIO_MAX_BYTES"
          "length (touchAudioAccum s) = TOUCH_AUDIO_MAX_BYTES"
          "length (audioBuffer s) = I2S_READ_LEN cfg"
    using assms by (simp_all add: buffer_inv_def)
  note b = bytesToCopy_bounds [OF i(1), of cfg]
  have len: "length (memcpy (touchAudioAccum s) (unat (touchAudioAccumIndex s))
                       (bytes_of_samples (audioBuffer s)) (unat ?b)) = TOUCH_AUDIO_MAX_BYTES"
    using b(1,2) i by (simp add: length_memcpy)
  have sum: "unat (touchAudioAccumIndex s) + unat ?b \<le> TOUCH_AUDIO_MAX_BYTES"
    using b(1) i(1) by linarith
  show "buffer_inv cfg (accumulate_touch_audio cfg s)"
    using i b(3) sum len by (simp add: accumulate_touch_audio_eq buffer_inv_def)
  show "unat (touchAudioAccumIndex s) \<le> unat (touchAudioAccumIndex (accumulate_touch_audio cfg s))"
    using b(3) by (simp add: accumulate_touch_audio_eq)
qed

lemma accumulate_touch_audio_full:
  assumes "unat (touchAudioAccumIndex s) = TOUCH_AUDIO_MAX_BYTES"
  shows "touchAudioAccumIndex (accumulate_touch_audio cfg s) = touchAudioAccumIndex s"
    and "touchAudioAccum (accumulate_touch_audio cfg s) = touchAudioAccum s"
    and "trace (accumulate_touch_audio cfg s) =
           trace s @ (if recordingCommand s \<and>
                         (touchState s = TOUCH_RECORDING_ACTIVE \<or>
                          touchState s = TOUCH_RECORDING_SILENCE)
                      then [Serial msg_buffer_full] else [])"
proof -
  have "unat (touchAudioAccumIndex s) \<le> TOUCH_AUDIO_MAX_BYTES"
    using assms by simp
  from bytesToCopy_bounds(4) [OF this assms, of cfg]
  show "touchAudioAccumIndex (accumulate_touch_audio cfg s) = touchAudioAccumIndex s"
    and "touchAudioAccum (accumulate_touch_audio cfg s) = touchAudioAccum s"
    and "trace (accumulate_touch_audio cfg s) =
           trace s @ (if recordingCommand s \<and>
                         (touchState s = TOUCH_RECORDING_ACTIVE \<or>
                          touchState s = TOUCH_RECORDING_SILENCE)
                      then [Serial msg_buffer_full] else [])"
    by (simp_all add: accumulate_touch_audio_eq)
qed

lemma processAudio_processed:
  assumes "block_processed cfg ok data s"
  shows "processAudio cfg ok data s =
           accumulate_touch_audio cfg
             (update_audio_level (take (I2S_READ_LEN cfg) data)
                (s\<lparr>audioBuffer := take (I2S_READ_LEN cfg) data
                       @ drop (length (take (I2S_READ_LEN cfg) data)) (audioBuffer s)\<rparr>))"
proof -
  define blk where "blk = take (I2S_READ_LEN cfg) data"
  have on: "microphoneInitialized s" "voiceActivationEnabled s" "ok" and ne: "blk \<noteq> []"
    using assms by (simp_all add: block_processed_def blk_def)
  have pos: "0 < 2 * length blk"
    using ne by simp
  have t: "take (2 * length blk div 2) (blk @ rest) = blk" for rest :: "16 word list"
    by simp
  show ?thesis
    unfolding processAudio_def Let_def blk_def [symmetric]
    using on pos by (simp add: t)
qed

lemma processAudio_skipped:
  assumes "\<not> block_processed cfg ok data s"
  shows "processAudio cfg ok data s = s"
  using assms by (auto simp: processAudio_def block_processed_def Let_def)

lemma processAudio_buffer_inv:
  assumes "buffer_inv cfg s"
  shows "buffer_inv cfg (processAudio cfg ok data s)"
    and "unat (touchAudioAccumIndex s) \<le> unat (touchAudioAccumIndex (processAudio cfg ok data s))"
proof -
  let ?blk = "take (I2S_READ_LEN cfg) data"
  let ?u = "update_audio_level ?blk (s\<lparr>audioBuffer := ?blk @ drop (length ?blk) (audioBuffer s)\<rparr>)"
  have u: "buffer_inv cfg ?u" "touchAudioAccumIndex ?u = touchAudioAccumIndex s"
    using assms by (simp_all add: buffer_inv_def update_audio_level_eq)
  show "buffer_inv cfg (processAudio cfg ok data s)"
  proof (cases "block_processed cfg ok data s")
    case True
    show ?thesis
      unfolding processAudio_processed [OF True] by (rule accumulate_touch_audio_inv(1) [OF u(1)])
  next
    case False
    show ?thesis
      unfolding processAudio_skipped [OF False] by (rule assms)
  qed
  show "unat (touchAudioAccumIndex s) \<le> unat (touchAudioAccumIndex (processAudio cfg ok data s))"
  proof (cases "block_processed cfg ok data s")
    case True
    show ?thesis
      unfolding processAudio_processed [OF True]
      using accumulate_touch_audio_inv(2) [OF u(1)] by (simp only: u(2))
  next
    case False
    show ?thesis
      unfolding processAudio_skipped [OF False] by simp
  qed
qed

lemma handleTouchSensor_buffer_inv:
  assumes "buffer_inv cfg s"
  shows "buffer_inv cfg (handleTouchSensor cfg now tv s)"
  using assms handleTouchSensor_cursor [of cfg now tv s]
  by (auto simp: buffer_inv_def)

lemma loop_app_buffer_inv:
  assumes "buffer_inv cfg s"
  shows "buffer_inv cfg (loop_app cfg inp s)"
proof -
  have "buffer_inv cfg (processAudio cfg (i2s_ok inp) (i2s_data inp)
          (handleTouchSensor cfg (millis_touch inp) (touchRead inp) s))"
    using assms by (intro processAudio_buffer_inv(1) handleTouchSensor_buffer_inv)
  then show ?thesis
    by (simp add: loop_app_def Let_def buffer_inv_def)
qed

lemma ble_callback_buffer_inv:
  assumes "buffer_inv cfg s"
  shows "buffer_inv cfg (ble_callback cfg now ev s)"
  using assms by (simp add: buffer_inv_def)

lemma run_buffer_inv:
  assumes "buffer_inv cfg s"
  shows "buffer_inv cfg (run cfg steps s)"
  using assms
  by (induction cfg steps s rule: run.induct)
     (simp_all add: loop_app_buffer_inv ble_callback_buffer_inv)

lemma boot_buffer_inv:
  "buffer_inv cfg (boot cfg mic)"
  by (simp add: buffer_inv_def boot_def TOUCH_AUDIO_MAX_BYTES_def)

lemma handleTouchSensor_ignores_buffer:
  "touchState (handleTouchSensor cfg now tv (s\<lparr>touchAudioAccumIndex := k, touchAudioAccum := a\<rparr>))
     = touchState (handleTouchSensor cfg now tv s)"
  "silenceStartTime (handleTouchSensor cfg now tv (s\<lparr>touchAudioAccumIndex := k, touchAudioAccum := a\<rparr>))
     = silenceStartTime (handleTouchSensor cfg now tv s)"
  "touchRecordingStartTime (handleTouchSensor cfg now tv (s\<lparr>touchAudioAccumIndex := k, touchAudioAccum := a\<rparr>))
     = touchRecordingStartTime (handleTouchSensor cfg now tv s)"
  "recordingCommand (handleTouchSensor cfg now tv (s\<lparr>touchAudioAccumIndex := k, touchAudioAccum := a\<rparr>))
     = recordingCommand (handleTouchSensor cfg now tv s)"
  by (cases "touchState s"; simp add: touch_frame_defs)+

lemma processAudio_timing_frame [simp]:
  "silenceStartTime (processAudio cfg ok data s) = silenceStartTime s"
  "touchRecordingStartTime (processAudio cfg ok data s) = touchRecordingStartTime s"
  "lastSpeechTime (processAudio cfg ok data s) = lastSpeechTime s"
  by (simp_all add: processAudio_defs)

subsection \<open>Single-precision arithmetic\<close>

text \<open>
  The exponent that \<open>ulp_exponent\<close> finds, and the numbers that \<open>f32\<close> leaves as they
  are: \<open>m * 2^e\<close> with \<open>\<bar>m\<bar> < 2^24\<close> and \<open>e\<close> from -149 to 104.
\<close>

lemma round_to_even_of_int [simp]: "round_to_even (of_int k) = k"
  by (simp add: round_to_even_def)

lemma round_to_even_minus: "round_to_even (- x) = - round_to_even x"
proof (cases "x = of_int \<lfloor>x\<rfloor>")
  case True
  then obtain k where "x = of_int k" ..
  then have "- x = of_int (- k)" by simp
  then show ?thesis unfolding \<open>x = of_int k\<close> by (metis round_to_even_of_int)
next
  case False
  have "x \<notin> \<int>"
  proof
    assume "x \<in> \<int>"
    then have "of_int \<lfloor>x\<rfloor> = x" by (rule of_int_floor)
    with False show False by simp
  qed
  then have f: "\<lfloor>- x\<rfloor> = - \<lfloor>x\<rfloor> - 1"
    using False by (simp add: floor_minus ceiling_altdef)
  have r: "0 < x - of_int \<lfloor>x\<rfloor>"
    using False by (simp add: less_le)
  show ?thesis
    unfolding round_to_even_def Let_def f using r
    by (auto simp: field_simps)
qed

lemma set_binary32_exponents: "set binary32_exponents = {- 149..104}"
  unfolding binary32_exponents_def by (rule set_upto)

lemma sorted_binary32_exponents: "sorted binary32_exponents"
  unfolding binary32_exponents_def by (rule sorted_upto)

lemma ulp_exponent_find:
  "\<exists>e\<in>{- 149..104}. \<bar>x\<bar> < 2 powi (e + 24) \<Longrightarrow>
     ulp_exponent x = Min {e \<in> {- 149..104}. \<bar>x\<bar> < 2 powi (e + 24)}"
  unfolding ulp_exponent_def set_binary32_exponents [symmetric]
  by (subst sorted_find_Min) (simp_all add: sorted_binary32_exponents)

lemma ulp_exponent_range: "- 149 \<le> ulp_exponent x" "ulp_exponent x \<le> 104"
proof -
  have "- 149 \<le> ulp_exponent x \<and> ulp_exponent x \<le> 104"
  proof (cases "find (\<lambda>e. \<bar>x\<bar> < 2 powi (e + 24)) binary32_exponents")
    case None
    then show ?thesis by (simp add: ulp_exponent_def)
  next
    case (Some e)
    then have "e \<in> set binary32_exponents"
      by (auto simp: find_Some_iff)
    then show ?thesis using Some by (simp add: ulp_exponent_def set_binary32_exponents)
  qed
  then show "- 149 \<le> ulp_exponent x" "ulp_exponent x \<le> 104" by simp_all
qed

lemma ulp_exponent_le:
  assumes "- 149 \<le> e" "e \<le> 104" "\<bar>x\<bar> < 2 powi (e + 24)"
  shows "ulp_exponent x \<le> e"
proof -
  have ex: "\<exists>e\<in>{- 149..104}. \<bar>x\<bar> < 2 powi (e + 24)"
    using assms by auto
  have fin: "finite {e \<in> {- 149..104}. \<bar>x\<bar> < 2 powi (e + 24)}"
    by (rule finite_subset [of _ "{- 149..104}"]) auto
  show ?thesis
    unfolding ulp_exponent_find [OF ex] using assms by (intro Min_le fin) simp_all
qed

lemma ulp_exponent_eq:
  assumes "- 149 \<le> e" "e \<le> 104" "\<bar>x\<bar> < 2 powi (e + 24)"
      and "e = - 149 \<or> 2 powi (e + 23) \<le> \<bar>x\<bar>"
  shows "ulp_exponent x = e"
proof (rule antisym)
  show "ulp_exponent x \<le> e"
    using assms(1-3) by (rule ulp_exponent_le)
  show "e \<le> ulp_exponent x"
  proof (rule ccontr)
    assume "\<not> e \<le> ulp_exponent x"
    then have lt: "ulp_exponent x < e" by simp
    with ulp_exponent_range(1) [of x] assms(4) have ge: "2 powi (e + 23) \<le> \<bar>x\<bar>"
      by auto
    have ex: "\<exists>e\<in>{- 149..104}. \<bar>x\<bar> < 2 powi (e + 24)"
      using assms by auto
    have "ulp_exponent x \<in> {e \<in> {- 149..104}. \<bar>x\<bar> < 2 powi (e + 24)}"
    proof -
      have fin: "finite {e \<in> {- 149..104}. \<bar>x\<bar> < 2 powi (e + 24)}"
        by (rule finite_subset [of _ "{- 149..104}"]) auto
      have ne: "{e \<in> {- 149..104}. \<bar>x\<bar> < 2 powi (e + 24)} \<noteq> {}"
        using ex by blast
      show ?thesis
        unfolding ulp_exponent_find [OF ex] using fin ne by (rule Min_in)
    qed
    then have "\<bar>x\<bar> < 2 powi (ulp_exponent x + 24)" by simp
    also have "\<dots> \<le> 2 powi (e + 23)"
      using lt by (intro power_int_increasing) simp_all
    finally show False using ge by simp
  qed
qed

lemma f32_eval:
  assumes "- 149 \<le> e" "e \<le> 104" "\<bar>x\<bar> < 2 powi (e + 24)"
      and "e = - 149 \<or> 2 powi (e + 23) \<le> \<bar>x\<bar>"
  shows "f32 x = of_int (round_to_even (x / 2 powi e)) * 2 powi e"
  unfolding f32_def ulp_exponent_eq [OF assms] ..

lemma f32_exact:
  assumes "x = of_int m * 2 powi e" and "\<bar>m\<bar> < 2 ^ 24" and "- 149 \<le> e" and "e \<le> 104"
  shows "f32 x = x"
proof -
  define e' where "e' = ulp_exponent x"
  have "\<bar>x\<bar> = of_int \<bar>m\<bar> * 2 powi e"
    unfolding assms(1) by (simp add: abs_mult)
  also have "\<dots> < 2 ^ 24 * 2 powi e"
    using assms(2) by (intro mult_strict_right_mono) (simp_all flip: of_int_less_iff)
  also have "\<dots> = 2 powi (e + 24)"
    by (simp add: power_int_add)
  finally have "\<bar>x\<bar> < 2 powi (e + 24)" .
  then have le: "e' \<le> e"
    unfolding e'_def using assms(3,4) by (intro ulp_exponent_le)
  then obtain k where k: "e = e' + int k"
    by (metis add_diff_cancel_left' zero_le_imp_eq_int diff_ge_0_iff_ge add.commute diff_add_cancel)
  have "x / 2 powi e' = of_int m * 2 powi (int k)"
    unfolding assms(1) k by (simp add: power_int_add)
  also have "\<dots> = of_int (m * 2 ^ k)"
    by simp
  finally have "round_to_even (x / 2 powi e') = m * 2 ^ k"
    by (simp only: round_to_even_of_int)
  then have "f32 x = of_int (m * 2 ^ k) * 2 powi e'"
    unfolding f32_def e'_def by simp
  also have "\<dots> = x"
    unfolding assms(1) k by (simp add: power_int_add)
  finally show ?thesis .
qed

lemma f32_0 [simp]: "f32 0 = 0"
  using f32_exact [of 0 0 0] by simp

lemma f32_minus: "f32 (- x) = - f32 x"
proof -
  have "ulp_exponent (- x) = ulp_exponent x"
    by (simp add: ulp_exponent_def)
  then show ?thesis
    unfolding f32_def by (simp add: round_to_even_minus)
qed

lemma f32_of_int:
  assumes "\<bar>k\<bar> < 2 ^ 24"
  shows "f32 (of_int k) = of_int k"
  using f32_exact [of "of_int k" k 0] assms by simp

lemma f32_int_multiple:
  assumes "k mod 2 ^ j = 0" and "\<bar>k\<bar> < 2 ^ (24 + j)" and "j \<le> 104"
  shows "f32 (real_of_int k) = real_of_int k"
proof -
  define m where "m = k div 2 ^ j"
  have k: "k = m * 2 ^ j"
    unfolding m_def using assms(1) by (simp add: mod_eq_0_iff_dvd)
  have "\<bar>m\<bar> * 2 ^ j < 2 ^ 24 * 2 ^ j"
    using assms(2) unfolding k by (simp add: abs_mult power_add)
  then have m: "\<bar>m\<bar> < 2 ^ 24"
    by simp
  have "real_of_int k = real_of_int m * 2 powi int j"
    unfolding k by simp
  from f32_exact [OF this m] assms(3) show ?thesis
    by simp
qed

lemma f32_int_dyadic:
  assumes "\<bar>m\<bar> < 2 ^ 24" and "j \<le> 149"
  shows "f32 (real_of_int m / 2 ^ j) = real_of_int m / 2 ^ j"
proof -
  have "real_of_int m / 2 ^ j = real_of_int m * 2 powi (- int j)"
    by (simp add: power_int_minus field_simps)
  from f32_exact [OF this assms(1)] assms(2) show ?thesis
    by simp
qed

lemma f32_numeral:
  "(numeral n :: int) < 2 ^ 24 \<Longrightarrow> f32 (numeral n) = numeral n"
  using f32_of_int [of "numeral n"] by simp

lemma f32_1 [simp]: "f32 1 = 1"
  using f32_of_int [of 1] by simp

lemma f32_multiple:
  assumes "(numeral n :: int) mod 2 ^ j = 0" and "(numeral n :: int) < 2 ^ (24 + j)" and "j \<le> 104"
  shows "f32 (numeral n) = numeral n"
  using f32_int_multiple [of "numeral n" j] assms by simp

lemma f32_dyadic:
  assumes "(numeral d :: int) = 2 ^ j" and "(numeral n :: int) < 2 ^ 24" and "j \<le> 149"
  shows "f32 (numeral n / numeral d) = numeral n / numeral d"
proof -
  have "(numeral d :: real) = real_of_int (numeral d)" by simp
  also have "\<dots> = 2 ^ j" unfolding assms(1) by simp
  finally have d: "(numeral d :: real) = 2 ^ j" .
  show ?thesis
    unfolding d using f32_int_dyadic [of "numeral n" j] assms(2,3) by simp
qed

text \<open>The constants \<^verbatim>\<open>0.2f\<close> and \<^verbatim>\<open>0.8f\<close>, and the share 2/5.\<close>

lemma f32_two_fifths: "f32 (2 / 5) = 13421773 / 33554432"
  by (subst f32_eval [where e = "- 25"])
     (simp_all add: power_int_minus round_to_even_def)

lemma f32_one_fifth: "f32 (1 / 5) = 13421773 / 67108864"
  by (subst f32_eval [where e = "- 26"])
     (simp_all add: power_int_minus round_to_even_def)

lemma f32_four_fifths: "f32 (4 / 5) = 13421773 / 16777216"
  by (subst f32_eval [where e = "- 24"])
     (simp_all add: power_int_minus round_to_even_def)

lemmas f32_rules = float_of_int_def f32_minus f32_numeral

text \<open>A 16-bit sample and the difference of two are binary32 numbers.\<close>

lemma sint16_bounds: "\<bar>sint (x :: 16 word)\<bar> < 2 ^ 24"
proof -
  have "- (2 ^ 15) \<le> sint x" "sint x < 2 ^ 15"
    using sint_ge [of x] sint_lt [of x] by simp_all
  then show ?thesis by simp
qed

lemma sint16_abs: "\<bar>sint (x :: 16 word)\<bar> \<le> 2 ^ 15"
proof -
  have "- (2 ^ 15) \<le> sint x" "sint x < 2 ^ 15"
    using sint_ge [of x] sint_lt [of x] by simp_all
  then show ?thesis by simp
qed

lemma float_of_int_sint [simp]: "float_of_int (sint (x :: 16 word)) = real_of_int (sint x)"
  unfolding float_of_int_def using sint16_bounds by (rule f32_of_int)

lemma float_of_int_int: "float_of_int (int n) = f32 (real n)"
  by (simp add: float_of_int_def)

lemma diff16_exact:
  fixes a b :: "16 word"
  shows "f32 (real_of_int (sint b) - real_of_int (sint a)) = real_of_int (sint b) - real_of_int (sint a)"
proof -
  have "\<bar>sint b - sint a\<bar> \<le> \<bar>sint b\<bar> + \<bar>sint a\<bar>"
    by simp
  also have "\<dots> \<le> 2 ^ 15 + 2 ^ 15"
    using sint16_abs [of a] sint16_abs [of b] by (intro add_mono)
  finally have "\<bar>sint b - sint a\<bar> < 2 ^ 24"
    by simp
  then have "f32 (real_of_int (sint b - sint a)) = real_of_int (sint b - sint a)"
    by (rule f32_of_int)
  then show ?thesis
    by (simp only: of_int_diff)
qed

lemma diff16_signed:
  fixes a b :: "16 word"
  shows "f32 (signed b - signed a) = (signed b - signed a :: real)"
  using diff16_exact [of b a] by simp

text \<open>Rounding is monotone.\<close>

lemma round_to_even_close: "\<bar>real_of_int (round_to_even x) - x\<bar> \<le> 1 / 2"
proof -
  have "real_of_int \<lfloor>x\<rfloor> \<le> x" "x < real_of_int \<lfloor>x\<rfloor> + 1"
    by linarith+
  then show ?thesis
    unfolding round_to_even_def Let_def by auto
qed

lemma round_to_even_mono:
  assumes "a \<le> b"
  shows "round_to_even a \<le> round_to_even b"
proof (rule ccontr)
  assume "\<not> round_to_even a \<le> round_to_even b"
  then have "round_to_even b + 1 \<le> round_to_even a" by simp
  then have g: "real_of_int (round_to_even b) + 1 \<le> real_of_int (round_to_even a)"
    by (metis of_int_1 of_int_add of_int_le_iff)
  have "b \<le> a"
    using round_to_even_close [of a] round_to_even_close [of b] g by linarith
  with assms have "a = b" by simp
  with \<open>\<not> round_to_even a \<le> round_to_even b\<close> show False by simp
qed

lemma ulp_exponent_upper:
  assumes "\<bar>x\<bar> < 2 powi 128"
  shows "\<bar>x\<bar> < 2 powi (ulp_exponent x + 24)"
proof -
  have ex: "\<exists>e\<in>{- 149..104}. \<bar>x\<bar> < 2 powi (e + 24)"
    using assms by (intro bexI [of _ 104]) simp_all
  have fin: "finite {e \<in> {- 149..104}. \<bar>x\<bar> < 2 powi (e + 24)}"
    by (rule finite_subset [of _ "{- 149..104}"]) auto
  have ne: "{e \<in> {- 149..104}. \<bar>x\<bar> < 2 powi (e + 24)} \<noteq> {}"
    using ex by blast
  have "ulp_exponent x \<in> {e \<in> {- 149..104}. \<bar>x\<bar> < 2 powi (e + 24)}"
    unfolding ulp_exponent_find [OF ex] using fin ne by (rule Min_in)
  then show ?thesis by simp
qed

lemma ulp_exponent_lower:
  assumes "- 149 < ulp_exponent x"
  shows "2 powi (ulp_exponent x + 23) \<le> \<bar>x\<bar>"
proof (rule ccontr)
  assume "\<not> 2 powi (ulp_exponent x + 23) \<le> \<bar>x\<bar>"
  then have lt: "\<bar>x\<bar> < 2 powi (ulp_exponent x + 23)"
    by simp
  have eq: "ulp_exponent x + 23 = (ulp_exponent x - 1) + 24"
    by simp
  have r: "- 149 \<le> ulp_exponent x - 1" "ulp_exponent x - 1 \<le> 104"
    using assms ulp_exponent_range(2) [of x] by simp_all
  have "ulp_exponent x \<le> ulp_exponent x - 1"
    using r lt unfolding eq by (rule ulp_exponent_le)
  then show False by simp
qed

lemma ulp_exponent_mono:
  assumes "\<bar>x\<bar> \<le> \<bar>y\<bar>"
  shows "ulp_exponent x \<le> ulp_exponent y"
proof (cases "\<bar>y\<bar> < 2 powi 128")
  case True
  then have "\<bar>x\<bar> < 2 powi (ulp_exponent y + 24)"
    using ulp_exponent_upper [of y] assms by simp
  with ulp_exponent_range [of y] show ?thesis
    by (rule ulp_exponent_le)
next
  case False
  have "ulp_exponent y = 104"
  proof (rule ccontr)
    assume "ulp_exponent y \<noteq> 104"
    then have lt: "ulp_exponent y < 104"
      using ulp_exponent_range(2) [of y] by simp
    have "find (\<lambda>e. \<bar>y\<bar> < 2 powi (e + 24)) binary32_exponents \<noteq> None"
      using lt by (auto simp: ulp_exponent_def split: option.splits)
    then obtain e where "find (\<lambda>e. \<bar>y\<bar> < 2 powi (e + 24)) binary32_exponents = Some e"
      by blast
    then have "e \<in> set binary32_exponents" "\<bar>y\<bar> < 2 powi (e + 24)"
      by (auto simp: find_Some_iff)
    then have "e \<le> 104" "\<bar>y\<bar> < 2 powi (e + 24)"
      by (simp_all add: set_binary32_exponents)
    then have "\<bar>y\<bar> < 2 powi 128"
      using power_int_increasing [of "e + 24" 128 "2::real"] by simp
    with False show False by simp
  qed
  then show ?thesis
    using ulp_exponent_range(2) [of x] by simp
qed

lemma f32_nonneg:
  assumes "0 \<le> x"
  shows "0 \<le> f32 x"
proof -
  have "0 \<le> x / 2 powi ulp_exponent x"
    using assms by simp
  then have "round_to_even 0 \<le> round_to_even (x / 2 powi ulp_exponent x)"
    by (rule round_to_even_mono)
  then have "0 \<le> round_to_even (x / 2 powi ulp_exponent x)"
    using round_to_even_of_int [of 0] by simp
  then show ?thesis
    unfolding f32_def by simp
qed

lemma f32_mono_nonneg:
  assumes "0 \<le> x" and "x \<le> y"
  shows "f32 x \<le> f32 y"
proof -
  define ex where "ex = ulp_exponent x"
  define ey where "ey = ulp_exponent y"
  have le: "ex \<le> ey"
    unfolding ex_def ey_def using assms by (intro ulp_exponent_mono) simp
  show ?thesis
  proof (cases "ex = ey")
    case True
    have "x / 2 powi ey \<le> y / 2 powi ey"
      using assms(2) by (simp add: divide_right_mono)
    then have "round_to_even (x / 2 powi ey) \<le> round_to_even (y / 2 powi ey)"
      by (rule round_to_even_mono)
    then have "real_of_int (round_to_even (x / 2 powi ey)) * 2 powi ey
                 \<le> real_of_int (round_to_even (y / 2 powi ey)) * 2 powi ey"
      by (intro mult_right_mono) simp_all
    then show ?thesis
      unfolding f32_def ex_def [symmetric] ey_def [symmetric] True .
  next
    case False
    with le have lt: "ex < ey" by simp
    then have "ex < 104"
      using ulp_exponent_range(2) [of y] by (simp add: ey_def)
    have small: "\<bar>x\<bar> < 2 powi 128"
    proof (rule ccontr)
      assume "\<not> \<bar>x\<bar> < 2 powi 128"
      then have "\<And>e. e \<in> set binary32_exponents \<Longrightarrow> \<not> \<bar>x\<bar> < 2 powi (e + 24)"
      proof -
        fix e
        assume "e \<in> set binary32_exponents"
        then have "e + 24 \<le> 128" by (simp add: set_binary32_exponents)
        then have "(2::real) powi (e + 24) \<le> 2 powi 128"
          by (intro power_int_increasing) simp_all
        with \<open>\<not> \<bar>x\<bar> < 2 powi 128\<close> show "\<not> \<bar>x\<bar> < 2 powi (e + 24)" by simp
      qed
      then have "find (\<lambda>e. \<bar>x\<bar> < 2 powi (e + 24)) binary32_exponents = None"
        by (simp add: find_None_iff)
      then have "ex = 104"
        by (simp add: ex_def ulp_exponent_def)
      with \<open>ex < 104\<close> show False by simp
    qed
    have ux: "x < 2 powi (ex + 24)"
      using ulp_exponent_upper [OF small] assms(1) by (simp add: ex_def)
    have "- 149 < ey"
      using lt ulp_exponent_range(1) [of x] by (simp add: ex_def)
    then have ly: "2 powi (ey + 23) \<le> y"
      using ulp_exponent_lower [of y] assms by (simp add: ey_def)
    have "x / 2 powi ex \<le> 2 powi 24"
    proof -
      have "x / 2 powi ex \<le> 2 powi (ex + 24) / 2 powi ex"
        using ux by (intro divide_right_mono) simp_all
      also have "\<dots> = 2 powi 24"
        by (simp add: power_int_add)
      finally show ?thesis .
    qed
    then have "x / 2 powi ex \<le> real_of_int (2 ^ 24)"
      by simp
    then have "round_to_even (x / 2 powi ex) \<le> round_to_even (real_of_int (2 ^ 24))"
      by (rule round_to_even_mono)
    then have "round_to_even (x / 2 powi ex) \<le> 2 ^ 24"
      by (simp only: round_to_even_of_int)
    then have "real_of_int (round_to_even (x / 2 powi ex)) \<le> 2 ^ 24"
      by (metis of_int_le_iff of_int_numeral of_int_power)
    then have "f32 x \<le> 2 ^ 24 * 2 powi ex"
      unfolding f32_def ex_def [symmetric] by (intro mult_right_mono) simp_all
    also have "\<dots> = 2 powi (ex + 24)"
      by (simp add: power_int_add)
    also have "\<dots> \<le> 2 powi (ey + 23)"
      using lt by (intro power_int_increasing) simp_all
    also have "\<dots> = 2 ^ 23 * 2 powi ey"
      by (simp add: power_int_add)
    also have "\<dots> \<le> f32 y"
    proof -
      have "2 powi (ey + 23) / 2 powi ey \<le> y / 2 powi ey"
        using ly by (intro divide_right_mono) simp_all
      then have "real_of_int (2 ^ 23) \<le> y / 2 powi ey"
        by (simp add: power_int_add)
      then have "round_to_even (real_of_int (2 ^ 23)) \<le> round_to_even (y / 2 powi ey)"
        by (rule round_to_even_mono)
      then have "2 ^ 23 \<le> round_to_even (y / 2 powi ey)"
        by (simp only: round_to_even_of_int)
      then have "2 ^ 23 \<le> real_of_int (round_to_even (y / 2 powi ey))"
        by (metis of_int_le_iff of_int_numeral of_int_power)
      then show ?thesis
        unfolding f32_def ey_def [symmetric] by (intro mult_right_mono) simp_all
    qed
    finally show ?thesis .
  qed
qed

lemma f32_mono:
  assumes "x \<le> y"
  shows "f32 x \<le> f32 y"
proof (cases "0 \<le> x")
  case True
  then show ?thesis using assms by (rule f32_mono_nonneg)
next
  case False
  show ?thesis
  proof (cases "0 \<le> y")
    case True
    have "f32 (- x) \<ge> 0"
      using False by (intro f32_nonneg) simp
    then have "f32 x \<le> 0"
      by (simp add: f32_minus)
    also have "0 \<le> f32 y"
      using True by (rule f32_nonneg)
    finally show ?thesis .
  next
    case ny: False
    have "f32 (- y) \<le> f32 (- x)"
      using ny assms by (intro f32_mono_nonneg) simp_all
    then show ?thesis
      by (simp add: f32_minus)
  qed
qed

text \<open>The rounded root, from bounds on its square; a rounded sum of equal integers.\<close>

lemma round_to_even_eqI:
  assumes "real_of_int m - 1 / 2 < y" and "y < real_of_int m + 1 / 2"
  shows "round_to_even y = m"
proof -
  have "\<bar>real_of_int (round_to_even y) - real_of_int m\<bar> < 1"
    using round_to_even_close [of y] assms by linarith
  then have "real_of_int \<bar>round_to_even y - m\<bar> < real_of_int 1"
    by simp
  then have "\<bar>round_to_even y - m\<bar> < 1"
    by (simp only: of_int_less_iff)
  then show ?thesis by simp
qed

lemma f32_sqrt:
  assumes "- 149 \<le> e" and "e \<le> 104" and "2 ^ 23 < m" and "m < 2 ^ 24"
      and "((real_of_int m - 1 / 2) * 2 powi e)\<^sup>2 < x"
      and "x < ((real_of_int m + 1 / 2) * 2 powi e)\<^sup>2"
  shows "f32 (sqrt x) = real_of_int m * 2 powi e"
proof -
  have p: "(0::real) < 2 powi e"
    by simp
  have "2 ^ 23 + 1 \<le> m" "m \<le> 2 ^ 24 - 1"
    using assms(3,4) by simp_all
  then have "real_of_int (2 ^ 23 + 1) \<le> real_of_int m" "real_of_int m \<le> real_of_int (2 ^ 24 - 1)"
    by (simp_all only: of_int_le_iff)
  then have m: "(2::real) ^ 23 + 1 \<le> real_of_int m" "real_of_int m \<le> 2 ^ 24 - 1"
    by simp_all
  have lo: "(real_of_int m - 1 / 2) * 2 powi e < sqrt x"
    using assms(5) by (rule real_less_rsqrt)
  have "0 \<le> (real_of_int m + 1 / 2) * 2 powi e"
    using m by simp
  then have hi: "sqrt x < (real_of_int m + 1 / 2) * 2 powi e"
    using assms(6) by (intro real_less_lsqrt)
  have q: "sqrt x / 2 powi e = sqrt x * (1 / 2 powi e)"
    by simp
  have lo': "real_of_int m - 1 / 2 < sqrt x / 2 powi e"
    using lo p by (simp add: pos_less_divide_eq)
  have hi': "sqrt x / 2 powi e < real_of_int m + 1 / 2"
    using hi p by (simp add: pos_divide_less_eq)
  have r: "round_to_even (sqrt x / 2 powi e) = m"
    using lo' hi' by (rule round_to_even_eqI)
  have "0 \<le> (real_of_int m - 1 / 2) * 2 powi e"
    using m by simp
  then have pos: "0 \<le> sqrt x"
    using lo by linarith
  have b1: "\<bar>sqrt x\<bar> < 2 powi (e + 24)"
  proof -
    have "sqrt x < (real_of_int m + 1 / 2) * 2 powi e"
      by (rule hi)
    also have "\<dots> \<le> 2 ^ 24 * 2 powi e"
      using m by (intro mult_right_mono) simp_all
    also have "\<dots> = 2 powi (e + 24)"
      by (simp add: power_int_add)
    finally show ?thesis using pos by simp
  qed
  have b2: "2 powi (e + 23) \<le> \<bar>sqrt x\<bar>"
  proof -
    have "(2::real) powi (e + 23) = 2 ^ 23 * 2 powi e"
      by (simp add: power_int_add)
    also have "\<dots> \<le> (real_of_int m - 1 / 2) * 2 powi e"
      using m by (intro mult_right_mono) simp_all
    also have "\<dots> \<le> sqrt x"
      using lo by simp
    finally show ?thesis using pos by simp
  qed
  show ?thesis
    using f32_eval [OF assms(1,2) b1] b2 r by simp
qed

lemma foldl_f32_replicate:
  assumes "\<bar>a\<bar> + int n * \<bar>c\<bar> < 2 ^ 24"
  shows "foldl (\<lambda>a v. f32 (a + v)) (real_of_int a) (replicate n (real_of_int c))
           = real_of_int (a + int n * c)"
  using assms
proof (induction n arbitrary: a)
  case 0
  show ?case by simp
next
  case (Suc n)
  have "\<bar>a + c\<bar> \<le> \<bar>a\<bar> + \<bar>c\<bar>"
    by simp
  also have "\<dots> \<le> \<bar>a\<bar> + int (Suc n) * \<bar>c\<bar>"
    by (simp add: algebra_simps)
  finally have s: "\<bar>a + c\<bar> < 2 ^ 24"
    using Suc.prems by simp
  have st: "f32 (real_of_int a + real_of_int c) = real_of_int (a + c)"
    using f32_of_int [OF s] by simp
  have "\<bar>a + c\<bar> + int n * \<bar>c\<bar> \<le> \<bar>a\<bar> + int (Suc n) * \<bar>c\<bar>"
    by (simp add: algebra_simps)
  then have "\<bar>a + c\<bar> + int n * \<bar>c\<bar> < 2 ^ 24"
    using Suc.prems by simp
  from Suc.IH [OF this] show ?case
    by (simp add: st algebra_simps)
qed

lemmas f32_eval_int =
  f32_numeral f32_eval [where e = 1] f32_eval [where e = 2] f32_eval [where e = 3]
  f32_eval [where e = 4] f32_eval [where e = 5]

text \<open>
  A sum that has reached \<open>B\<close> stays there when a term of at most \<open>c\<close> is added, if
  \<open>B + c\<close> rounds to \<open>B\<close>: the accumulators are bounded whatever the number of terms.
\<close>

lemma f32_add_bounded:
  assumes "\<bar>a\<bar> \<le> B" and "\<bar>v\<bar> \<le> c" and "f32 (B + c) = B"
  shows "\<bar>f32 (a + v)\<bar> \<le> B"
proof -
  have "a + v \<le> B + c" "- (a + v) \<le> B + c"
    using assms(1,2) by linarith+
  then have "f32 (a + v) \<le> f32 (B + c)" "f32 (- (a + v)) \<le> f32 (B + c)"
    by (simp_all only: f32_mono)
  then show ?thesis
    unfolding assms(3) f32_minus by linarith
qed

lemma f32_sum_bounded:
  assumes "\<bar>a\<bar> \<le> B" and "\<forall>v \<in> set vs. \<bar>v\<bar> \<le> c" and "f32 (B + c) = B"
  shows "\<bar>foldl (\<lambda>a v. f32 (a + v)) a vs\<bar> \<le> B"
  using assms(1,2)
proof (induction vs arbitrary: a)
  case Nil
  then show ?case by simp
next
  case (Cons v vs)
  have "\<bar>v\<bar> \<le> c"
    using Cons.prems(2) by simp
  with Cons.prems(1) have b: "\<bar>f32 (a + v)\<bar> \<le> B"
    using assms(3) by (rule f32_add_bounded)
  have r: "\<forall>v \<in> set vs. \<bar>v\<bar> \<le> c"
    using Cons.prems(2) by simp
  show ?case
    unfolding foldl_Cons by (rule Cons.IH [OF b r])
qed

lemma f32_absorb_15: "f32 (2 ^ 40 + 2 ^ 15) = 2 ^ 40"
  by (subst f32_eval [where e = 17]) (simp_all add: round_to_even_def)

lemma f32_absorb_16: "f32 (2 ^ 50 + 2 ^ 16) = 2 ^ 50"
  by (subst f32_eval [where e = 27]) (simp_all add: round_to_even_def)

lemma f32_absorb_30: "f32 (2 ^ 60 + 2 ^ 30) = 2 ^ 60"
  by (subst f32_eval [where e = 37]) (simp_all add: round_to_even_def)

lemma square16_bounded:
  fixes p q :: "16 word"
  shows "\<bar>f32 (real_of_int (sint p) * real_of_int (sint p))\<bar> \<le> 2 ^ 30"
proof -
  have "\<bar>sint p\<bar> * \<bar>sint p\<bar> \<le> 2 ^ 15 * 2 ^ 15"
    using sint16_abs [of p] by (intro mult_mono) simp_all
  then have i: "sint p * sint p \<le> 2 ^ 30"
    by (simp add: abs_mult_self_eq flip: abs_mult)
  have n: "0 \<le> sint p * sint p"
    by simp
  have "real_of_int (sint p) * real_of_int (sint p) = real_of_int (sint p * sint p)"
    by simp
  also have "\<dots> \<le> real_of_int (2 ^ 30)"
    using i by (simp only: of_int_le_iff)
  finally have le: "real_of_int (sint p) * real_of_int (sint p) \<le> 2 ^ 30"
    by simp
  have "f32 (real_of_int (sint p) * real_of_int (sint p)) \<le> f32 (2 ^ 30)"
    using le by (rule f32_mono)
  also have "f32 (2 ^ 30) = 2 ^ 30"
    using f32_int_multiple [of "2 ^ 30" 30] by simp
  finally have u: "f32 (real_of_int (sint p) * real_of_int (sint p)) \<le> 2 ^ 30" .
  have "0 \<le> f32 (real_of_int (sint p) * real_of_int (sint p))"
    by (rule f32_nonneg) simp
  with u show ?thesis by simp
qed

lemma float_square16_bounded:
  fixes p :: "16 word"
  shows "\<bar>f32 (float_of_int (sint p) * float_of_int (sint p))\<bar> \<le> 2 ^ 30"
  unfolding float_of_int_sint by (rule square16_bounded)

subsection \<open>The level and the peak\<close>

lemma sqrt_256000000: "sqrt 256000000 = 16000"
  by (rule real_sqrt_unique) simp_all

lemma audio_level_loud_block: "audio_level [1000, - 1000] = 3125 / 64"
  by (simp add: audio_level_def Let_def GAIN_def NOISE_GATE_def float_to_int16_def
        trunc_toward_zero_def sqrt_256000000 f32_rules
        f32_multiple [where j = 14] f32_dyadic [where j = 8] f32_dyadic [where j = 6])

lemma processAudio_level:
  assumes "block_processed cfg ok data s"
  shows "currentAudioLevel (processAudio cfg ok data s) = audio_level (take (I2S_READ_LEN cfg) data)"
    and "peakAudioLevel (processAudio cfg ok data s) =
           max (peakAudioLevel s) (audio_level (take (I2S_READ_LEN cfg) data))"
  unfolding processAudio_processed [OF assms]
  by (simp_all add: accumulate_touch_audio_eq update_audio_level_eq)

lemma processAudio_peak:
  "peakAudioLevel (processAudio cfg ok data s) =
     (if block_processed cfg ok data s
      then max (peakAudioLevel s) (currentAudioLevel (processAudio cfg ok data s))
      else peakAudioLevel s)"
proof (cases "block_processed cfg ok data s")
  case True
  then show ?thesis by (simp add: processAudio_level)
next
  case False
  then show ?thesis by (simp add: processAudio_skipped)
qed

lemma processAudio_peak_mono:
  "peakAudioLevel s \<le> peakAudioLevel (processAudio cfg ok data s)"
  unfolding processAudio_peak [of cfg ok data s] by simp

lemma loop_app_peak_mono:
  "peakAudioLevel s \<le> peakAudioLevel (loop_app cfg inp s)"
proof -
  have "peakAudioLevel (loop_app cfg inp s) =
          peakAudioLevel (processAudio cfg (i2s_ok inp) (i2s_data inp)
             (handleTouchSensor cfg (millis_touch inp) (touchRead inp) s))"
    by (simp add: loop_app_def Let_def)
  also have "\<dots> \<ge> peakAudioLevel (handleTouchSensor cfg (millis_touch inp) (touchRead inp) s)"
    by (rule processAudio_peak_mono)
  finally show ?thesis by simp
qed

lemma run_peak_mono:
  "peakAudioLevel s \<le> peakAudioLevel (run cfg steps s)"
proof (induction cfg steps s rule: run.induct)
  case (1 cfg s)
  then show ?case by simp
next
  case (2 cfg inp steps s)
  have "peakAudioLevel s \<le> peakAudioLevel (loop_app cfg inp s)"
    by (rule loop_app_peak_mono)
  also note 2
  finally show ?case by simp
next
  case (3 cfg now ev steps s)
  then show ?case by simp
qed

lemma dc_sum_eq:
  "dc_sum xs acc = foldl (\<lambda>a v. f32 (a + v)) acc (map (\<lambda>x. real_of_int (sint x)) xs)"
  by (induction xs arbitrary: acc) simp_all

lemma dc_sum_bounded:
  assumes "\<bar>acc\<bar> \<le> 2 ^ 40"
  shows "\<bar>dc_sum xs acc\<bar> \<le> 2 ^ 40"
  using assms
proof (induction xs arbitrary: acc)
  case Nil
  then show ?case by simp
next
  case (Cons x xs)
  have "\<bar>real_of_int (sint x)\<bar> \<le> 2 ^ 15"
    using sint16_abs [of x] by (metis of_int_abs of_int_le_iff of_int_numeral of_int_power)
  then have "\<bar>float_of_int (sint x)\<bar> \<le> 2 ^ 15"
    by (simp only: float_of_int_sint)
  with Cons.prems have b: "\<bar>f32 (acc + float_of_int (sint x))\<bar> \<le> 2 ^ 40"
    using f32_absorb_15 by (rule f32_add_bounded)
  show ?case
    unfolding dc_sum.simps by (rule Cons.IH [OF b])
qed

lemma sint_float_to_int16:
  assumes "- 32768 \<le> trunc_toward_zero v" and "trunc_toward_zero v \<le> 32767"
  shows "sint (float_to_int16 v) = trunc_toward_zero v"
proof -
  have "signed_take_bit 15 (trunc_toward_zero v) = trunc_toward_zero v"
    using assms by (intro signed_take_bit_int_eq_self) simp_all
  then show ?thesis
    by (simp add: float_to_int16_def sint_sbintrunc')
qed

lemma level_loop_eq:
  assumes "\<forall>x \<in> set xs. - 32768 \<le> trunc_toward_zero (f32 (f32 (real_of_int (sint x) - dc) * GAIN))
                       \<and> trunc_toward_zero (f32 (f32 (real_of_int (sint x) - dc) * GAIN)) \<le> 32767"
  shows "sum_squares (level_loop dc xs a) =
           foldl (\<lambda>a v. f32 (a + v)) (sum_squares a)
             (map (\<lambda>p. f32 (real_of_int (p * p)))
                (filter (\<lambda>p. NOISE_GATE < \<bar>p\<bar>)
                  (map (\<lambda>x. trunc_toward_zero (f32 (f32 (real_of_int (sint x) - dc) * GAIN))) xs)))
       \<and> valid_samples (level_loop dc xs a) =
           valid_samples a +
           int (length (filter (\<lambda>p. NOISE_GATE < \<bar>p\<bar>)
                  (map (\<lambda>x. trunc_toward_zero (f32 (f32 (real_of_int (sint x) - dc) * GAIN))) xs)))"
  using assms
proof (induction xs arbitrary: a)
  case Nil
  show ?case by simp
next
  case (Cons x xs)
  let ?v = "f32 (f32 (real_of_int (sint x) - dc) * GAIN)"
  have p: "sint (float_to_int16 ?v) = trunc_toward_zero ?v"
    using Cons.prems by (intro sint_float_to_int16) simp_all
  have rest: "\<forall>x \<in> set xs. - 32768 \<le> trunc_toward_zero (f32 (f32 (real_of_int (sint x) - dc) * GAIN))
                       \<and> trunc_toward_zero (f32 (f32 (real_of_int (sint x) - dc) * GAIN)) \<le> 32767"
    using Cons.prems by simp
  have q: "(signed (float_to_int16 ?v) :: real) = real_of_int (trunc_toward_zero ?v)"
    unfolding p [symmetric] by simp
  have "- 32768 \<le> trunc_toward_zero ?v" "trunc_toward_zero ?v \<le> 32767"
    using Cons.prems by simp_all
  then have "\<bar>trunc_toward_zero ?v\<bar> < 16777216"
    by linarith
  then have "\<bar>trunc_toward_zero ?v\<bar> < 2 ^ 24"
    by simp
  then have c: "float_of_int (trunc_toward_zero ?v) = real_of_int (trunc_toward_zero ?v)"
    unfolding float_of_int_def by (rule f32_of_int)
  show ?case
    using Cons.IH [OF rest] p q c by (simp add: Let_def)
qed

lemma level_loop_bounded:
  assumes "\<bar>sum_squares a\<bar> \<le> 2 ^ 60"
  shows "\<bar>sum_squares (level_loop dc xs a)\<bar> \<le> 2 ^ 60"
  using assms
proof (induction xs arbitrary: a)
  case Nil
  then show ?case by simp
next
  case (Cons x xs)
  define proc where "proc = float_to_int16 (f32 (f32 (float_of_int (sint x) - dc) * GAIN))"
  define a' where "a' =
    a\<lparr>min_sample := (if sint proc < sint (min_sample a) then proc else min_sample a),
      max_sample := (if sint proc > sint (max_sample a) then proc else max_sample a),
      sum_squares := f32 (sum_squares a
                           + f32 (float_of_int (sint proc) * float_of_int (sint proc))),
      valid_samples := valid_samples a + 1\<rparr>"
  have st: "level_loop dc (x # xs) a =
              (if \<bar>sint proc\<bar> > NOISE_GATE then level_loop dc xs a' else level_loop dc xs a)"
    unfolding level_loop.simps Let_def proc_def a'_def ..
  have "\<bar>f32 (sum_squares a + f32 (float_of_int (sint proc) * float_of_int (sint proc)))\<bar>
          \<le> 2 ^ 60"
    using Cons.prems float_square16_bounded f32_absorb_30 by (rule f32_add_bounded)
  then have b: "\<bar>sum_squares a'\<bar> \<le> 2 ^ 60"
    unfolding a'_def by (simp del: float_of_int_sint)
  show ?case
  proof (cases "\<bar>sint proc\<bar> > NOISE_GATE")
    case True
    show ?thesis
      unfolding st if_P [OF True] by (rule Cons.IH [OF b])
  next
    case False
    show ?thesis
      unfolding st if_not_P [OF False] by (rule Cons.IH [OF Cons.prems])
  qed
qed

lemma audio_level_eq:
  assumes "in_int16_range samples"
  shows "audio_level samples = truncated_level samples"
proof -
  have dc: "f32 (dc_sum samples 0 / float_of_int (int (length samples))) = block_mean_f32 samples"
    by (simp add: dc_sum_eq block_mean_f32_def f32_sum_def float_of_int_int)
  have r: "\<forall>x \<in> set samples.
             - 32768 \<le> trunc_toward_zero (f32 (f32 (real_of_int (sint x) - block_mean_f32 samples) * GAIN))
             \<and> trunc_toward_zero (f32 (f32 (real_of_int (sint x) - block_mean_f32 samples) * GAIN)) \<le> 32767"
    using assms by (simp add: in_int16_range_def gained_f32_def)
  note l = level_loop_eq [OF r]
  show ?thesis
    unfolding audio_level_def Let_def dc
    by (simp add: l truncated_level_def rms_percent_f32_def gained_f32_def o_def f32_sum_def
          float_of_int_int)
qed

lemma foldl_f32_zeros [simp]: "foldl (\<lambda>a v. f32 (a + v)) 0 (replicate n 0) = 0"
  by (induction n) simp_all

lemma zero_block:
  assumes "\<forall>x \<in> set samples. x = 0"
  shows "in_int16_range samples" and "truncated_level samples = 0"
proof -
  have z: "samples = replicate (length samples) 0"
    using assms by (simp add: replicate_length_same)
  have m: "block_mean_f32 samples = 0"
    by (subst z) (simp add: block_mean_f32_def f32_sum_def map_replicate_const
          del: replicate_eq_replicate)
  have g: "gained_f32 samples = replicate (length samples) 0"
    unfolding gained_f32_def m by (subst z, subst (2) z) (simp add: map_replicate_const)
  show "in_int16_range samples"
    unfolding in_int16_range_def g by (simp add: trunc_toward_zero_def)
  show "truncated_level samples = 0"
    unfolding truncated_level_def g
    by (simp add: trunc_toward_zero_def NOISE_GATE_def rms_percent_f32_def)
qed

lemma sqrt_9703225: "sqrt 9703225 = 3115"
  by (rule real_sqrt_unique) simp_all

lemma quiet_block_mean: "block_mean quiet_block = 201 / 32"
  by (simp add: block_mean_def quiet_block_def sum_list_replicate)

lemma quiet_block_gained: "gained quiet_block = replicate 31 (- (201 / 2)) @ [6231 / 2]"
  by (simp add: gained_def quiet_block_mean GAIN_def) (simp add: quiet_block_def)

lemma quiet_block_mean_f32: "block_mean_f32 quiet_block = 201 / 32"
  by (simp add: block_mean_f32_def f32_sum_def quiet_block_def f32_numeral
        f32_dyadic [where j = 5])

lemma quiet_block_gained_f32: "gained_f32 quiet_block = replicate 31 (- (201 / 2)) @ [6231 / 2]"
  unfolding gained_f32_def quiet_block_mean_f32
  by (simp add: quiet_block_def GAIN_def f32_minus f32_dyadic [where j = 5]
        f32_dyadic [where j = 1])

lemma quiet_block_in_range: "in_int16_range quiet_block"
  by (simp add: in_int16_range_def quiet_block_gained_f32 trunc_toward_zero_def)

lemma quiet_block_truncated: "truncated_level quiet_block = 77875 / 8192"
  by (simp add: truncated_level_def quiet_block_gained_f32 trunc_toward_zero_def NOISE_GATE_def
        rms_percent_f32_def f32_sum_def sqrt_9703225 f32_numeral
        f32_dyadic [where j = 15] f32_dyadic [where j = 13])

lemma rounded_mean_block_mean:
  "block_mean rounded_mean_block = 1540486 / 77"
  "block_mean_f32 rounded_mean_block = 320101 / 16"
proof -
  show "block_mean rounded_mean_block = 1540486 / 77"
    by (simp add: block_mean_def rounded_mean_block_def sum_list_replicate)
  have s: "foldl (\<lambda>a v. f32 (a + v)) 0 (replicate 76 20000) = 1520000"
    using foldl_f32_replicate [of 0 76 20000] by simp
  have q: "f32 (1540486 / 77) = 320101 / 16"
    by (subst f32_eval [where e = "- 9"]) (simp_all add: power_int_minus round_to_even_def)
  show "block_mean_f32 rounded_mean_block = 320101 / 16"
    by (simp add: block_mean_f32_def f32_sum_def rounded_mean_block_def s f32_numeral q)
qed

lemma rounded_mean_block_gained:
  "map trunc_toward_zero (gained rounded_mean_block) = replicate 76 (- 100) @ [7675]"
  "map trunc_toward_zero (gained_f32 rounded_mean_block) = replicate 76 (- 101) @ [7675]"
proof -
  show "map trunc_toward_zero (gained rounded_mean_block) = replicate 76 (- 100) @ [7675]"
    unfolding gained_def rounded_mean_block_mean
    by (simp add: rounded_mean_block_def GAIN_def trunc_toward_zero_def)
  show "map trunc_toward_zero (gained_f32 rounded_mean_block) = replicate 76 (- 101) @ [7675]"
    unfolding gained_f32_def rounded_mean_block_mean
    by (simp add: rounded_mean_block_def GAIN_def trunc_toward_zero_def f32_minus f32_numeral
          f32_dyadic [where j = 4])
qed

lemma rounded_mean_block_in_range: "in_int16_range rounded_mean_block"
proof -
  have "\<forall>p \<in> set (map trunc_toward_zero (gained_f32 rounded_mean_block)).
          - 32768 \<le> p \<and> p \<le> 32767"
    unfolding rounded_mean_block_gained by simp
  then show ?thesis
    by (simp add: in_int16_range_def)
qed

lemma f32_sqrt_rounded_mean: "f32 (sqrt (6200613 / 8)) = 14424217 / 16384"
  using f32_sqrt [where e = "- 14" and m = 14424217 and x = "6200613 / 8"]
  by (simp add: power_int_minus power2_eq_square)

lemma rounded_mean_block_level: "truncated_level rounded_mean_block = 1408615 / 524288"
proof -
  have s: "foldl (\<lambda>a v. f32 (a + v)) 0 (replicate 76 10201) = 775276"
    using foldl_f32_replicate [of 0 76 10201] by simp
  have sq: "f32 58905625 = 58905624"
    by (subst f32_eval [where e = 2]) (simp_all add: round_to_even_def)
  have sum: "f32 59680900 = 59680900"
    by (rule f32_multiple [where j = 2]) simp_all
  have q: "f32 (59680900 / 77) = 6200613 / 8"
    by (subst f32_eval [where e = "- 4"]) (simp_all add: power_int_minus round_to_even_def)
  have d: "f32 (14424217 / 536870912) = 14424217 / 536870912"
    using f32_int_dyadic [of 14424217 29] by simp
  have l: "f32 (360605425 / 134217728) = 1408615 / 524288"
    by (subst f32_eval [where e = "- 22"]) (simp_all add: power_int_minus round_to_even_def)
  show ?thesis
    unfolding truncated_level_def rounded_mean_block_gained
    by (simp add: NOISE_GATE_def rms_percent_f32_def f32_sum_def f32_numeral s sq sum q
          f32_sqrt_rounded_mean d l)
qed

lemma quiet_block_claimed: "claimed_level quiet_block = sqrt (1252431 / 4) / 32768 * 100"
  by (simp add: claimed_level_def quiet_block_gained NOISE_GATE_def rms_percent_def
        sum_list_replicate)

lemma quiet_block_differs: "claimed_level quiet_block \<noteq> 77875 / 8192"
proof
  assume "claimed_level quiet_block = 77875 / 8192"
  then have "sqrt (1252431 / 4) = 3115"
    by (simp add: quiet_block_claimed)
  then have "sqrt (1252431 / 4) ^ 2 = 3115 ^ 2"
    by simp
  then show False
    by simp
qed

lemma run_peak_nonneg:
  "0 \<le> peakAudioLevel (run cfg steps (boot cfg mic))"
proof -
  have "peakAudioLevel (boot cfg mic) \<le> peakAudioLevel (run cfg steps (boot cfg mic))"
    by (rule run_peak_mono)
  then show ?thesis by (simp add: boot_def)
qed

lemma quiet_block_processed:
  "block_processed spec_config True quiet_block listening"
  "take (I2S_READ_LEN spec_config) quiet_block = quiet_block"
  by (simp_all add: block_processed_def listening_def boot_def spec_config_def quiet_block_def)

lemma quiet_block_level:
  "currentAudioLevel (processAudio spec_config True quiet_block listening) = 77875 / 8192"
  using processAudio_level(1) [OF quiet_block_processed(1)]
  by (simp add: quiet_block_processed(2) audio_level_eq [OF quiet_block_in_range]
        quiet_block_truncated)

subsection \<open>The speech classifier\<close>

lemma energy_sum_eq:
  "energy_sum xs acc =
     foldl (\<lambda>a v. f32 (a + v)) acc (map (\<lambda>x. f32 (real_of_int (sint x * sint x))) xs)"
  by (induction xs arbitrary: acc) (simp_all add: float_of_int_def)

lemma energy_sum_bounded:
  assumes "\<bar>acc\<bar> \<le> 2 ^ 60"
  shows "\<bar>energy_sum xs acc\<bar> \<le> 2 ^ 60"
  using assms
proof (induction xs arbitrary: acc)
  case Nil
  then show ?case by simp
next
  case (Cons x xs)
  have "\<bar>f32 (real_of_int (sint x) * real_of_int (sint x))\<bar> \<le> 2 ^ 30"
    by (rule square16_bounded)
  then have "\<bar>float_of_int (sint x * sint x)\<bar> \<le> 2 ^ 30"
    by (simp add: float_of_int_def)
  with Cons.prems have b: "\<bar>f32 (acc + float_of_int (sint x * sint x))\<bar> \<le> 2 ^ 60"
    using f32_absorb_30 by (rule f32_add_bounded)
  show ?case
    unfolding energy_sum.simps by (rule Cons.IH [OF b])
qed

lemma spectral_loop_eq_aux:
  assumes "n div 4 - i = k"
  shows "spectral_loop samples n i (l, m, h) =
     (foldl (\<lambda>a v. f32 (a + v)) l
        (map (succ_diff samples) (filter (\<lambda>j. j < n div 12) [i..<n div 4])),
      foldl (\<lambda>a v. f32 (a + v)) m
        (map (succ_diff samples) (filter (\<lambda>j. n div 12 \<le> j \<and> j < n div 6) [i..<n div 4])),
      foldl (\<lambda>a v. f32 (a + v)) h
        (map (succ_diff samples) (filter (\<lambda>j. n div 6 \<le> j) [i..<n div 4])))"
  using assms
proof (induction k arbitrary: i l m h)
  case 0
  then have "\<not> i < n div 4" by simp
  then show ?case
    by (subst spectral_loop.simps) simp
next
  case (Suc k)
  then have lt: "i < n div 4" by simp
  then have u: "[i..<n div 4] = i # [Suc i..<n div 4]"
    by (simp add: upt_conv_Cons)
  have step: "n div 4 - Suc i = k"
    using Suc.prems by simp
  note ih = Suc.IH [OF step]
  have bands: "n div 12 \<le> n div 6"
    by (rule div_le_mono2) simp_all
  have unfold: "spectral_loop samples n i (l, m, h) =
      (if i < n div 12 then spectral_loop samples n (Suc i) (f32 (l + succ_diff samples i), m, h)
       else if i < n div 6 then spectral_loop samples n (Suc i) (l, f32 (m + succ_diff samples i), h)
       else spectral_loop samples n (Suc i) (l, m, f32 (h + succ_diff samples i)))"
    using lt by (subst spectral_loop.simps) (simp add: Let_def succ_diff_def diff16_signed)
  show ?case
  proof (cases "i < n div 12")
    case True
    with bands have nh: "\<not> n div 6 \<le> i" and nl: "\<not> n div 12 \<le> i" by simp_all
    show ?thesis
      unfolding unfold u by (simp add: True nh nl ih)
  next
    case False
    then have ge: "n div 12 \<le> i" by simp
    show ?thesis
    proof (cases "i < n div 6")
      case True
      then have nh: "\<not> n div 6 \<le> i" by simp
      show ?thesis
        unfolding unfold u by (simp add: False ge True nh ih)
    next
      case nm: False
      then have ge6: "n div 6 \<le> i" by simp
      show ?thesis
        unfolding unfold u by (simp add: False ge nm ge6 ih)
    qed
  qed
qed

lemmas spectral_loop_eq = spectral_loop_eq_aux [OF refl]

lemma succ_diff_bounded: "\<bar>succ_diff samples i\<bar> \<le> 2 ^ 16"
proof -
  let ?a = "sint (samples ! (i - 1))" and ?b = "sint (samples ! i)"
  have "\<bar>?b - ?a\<bar> \<le> \<bar>?b\<bar> + \<bar>?a\<bar>"
    by simp
  also have "\<dots> \<le> 2 ^ 15 + 2 ^ 15"
    by (intro add_mono sint16_abs)
  finally have "\<bar>?b - ?a\<bar> \<le> 2 ^ 16"
    by simp
  then have "real_of_int \<bar>?b - ?a\<bar> \<le> real_of_int (2 ^ 16)"
    by (simp only: of_int_le_iff)
  then show ?thesis
    unfolding succ_diff_def by simp
qed

lemma spectral_loop_bounded:
  assumes "\<bar>l\<bar> \<le> 2 ^ 50" and "\<bar>m\<bar> \<le> 2 ^ 50" and "\<bar>h\<bar> \<le> 2 ^ 50"
  shows "\<bar>fst (spectral_loop samples n i (l, m, h))\<bar> \<le> 2 ^ 50"
    and "\<bar>fst (snd (spectral_loop samples n i (l, m, h)))\<bar> \<le> 2 ^ 50"
    and "\<bar>snd (snd (spectral_loop samples n i (l, m, h)))\<bar> \<le> 2 ^ 50"
proof -
  have d: "\<forall>v \<in> set (map (succ_diff samples) js). \<bar>v\<bar> \<le> 2 ^ 16" for js
    using succ_diff_bounded by auto
  show "\<bar>fst (spectral_loop samples n i (l, m, h))\<bar> \<le> 2 ^ 50"
    unfolding spectral_loop_eq fst_conv using assms(1) d f32_absorb_16 by (rule f32_sum_bounded)
  show "\<bar>fst (snd (spectral_loop samples n i (l, m, h)))\<bar> \<le> 2 ^ 50"
    unfolding spectral_loop_eq fst_conv snd_conv using assms(2) d f32_absorb_16
    by (rule f32_sum_bounded)
  show "\<bar>snd (snd (spectral_loop samples n i (l, m, h)))\<bar> \<le> 2 ^ 50"
    unfolding spectral_loop_eq snd_conv using assms(3) d f32_absorb_16
    by (rule f32_sum_bounded)
qed

lemma filter_upt_range:
  assumes "set (filter P [i..<b]) = {lo..<hi}"
  shows "filter P [i..<b] = [lo..<hi]"
proof (rule sorted_distinct_set_unique)
  show "sorted (filter P [i..<b])"
    by (rule sorted_wrt_filter) simp
  show "set (filter P [i..<b]) = set [lo..<hi]"
    using assms by simp
qed simp_all

lemma band_ranges:
  fixes n :: nat
  shows "filter (\<lambda>j. j < n div 12) [1..<n div 4] = [1..<n div 12]"
    and "filter (\<lambda>j. n div 12 \<le> j \<and> j < n div 6) [1..<n div 4] = [max 1 (n div 12)..<n div 6]"
    and "filter (\<lambda>j. n div 6 \<le> j) [1..<n div 4] = [max 1 (n div 6)..<n div 4]"
proof -
  have a: "n div 12 \<le> n div 6"
    by (rule div_le_mono2) simp_all
  have b: "n div 6 \<le> n div 4"
    by (rule div_le_mono2) simp_all
  show "filter (\<lambda>j. j < n div 12) [1..<n div 4] = [1..<n div 12]"
    using a b by (intro filter_upt_range) auto
  show "filter (\<lambda>j. n div 12 \<le> j \<and> j < n div 6) [1..<n div 4] = [max 1 (n div 12)..<n div 6]"
    using a b by (intro filter_upt_range) auto
  show "filter (\<lambda>j. n div 6 \<le> j) [1..<n div 4] = [max 1 (n div 6)..<n div 4]"
    using a b by (intro filter_upt_range) auto
qed

lemma detectSpeechActivity_bands:
  "detectSpeechActivity samples =
     (if samples \<noteq> [] \<and> mean_square_f32 samples < 20000000 then False
      else if spectral_total_f32 samples < 5000 then False
      else f32 (2 / 10) < mid_fraction_f32 samples \<and> mid_fraction_f32 samples < f32 (8 / 10))"
proof -
  have loop: "spectral_loop samples (length samples) 1 (0, 0, 0) =
                (low_band_f32 samples, mid_band_f32 samples, high_band_f32 samples)"
    unfolding spectral_loop_eq band_ranges
    by (simp add: low_band_f32_def mid_band_f32_def high_band_f32_def band_energy_f32_def
          f32_sum_def)
  have five: "float_of_int 5000 = 5000"
    using f32_of_int [of 5000] by (simp add: float_of_int_def)
  show ?thesis
    unfolding detectSpeechActivity_def Let_def loop
    by (simp add: energy_sum_eq mean_square_f32_def spectral_total_f32_def mid_fraction_f32_def
          f32_sum_def float_of_int_int five)
qed

lemma speech_block_exact:
  "speech_block \<noteq> []"
  "mean_square speech_block = 64000000"
  "low_band speech_block = 16000"
  "mid_band speech_block = 32000"
  "high_band speech_block = 32000"
  by (simp_all add: speech_block_def mean_square_def low_band_def mid_band_def high_band_def
        band_energy_def succ_diff_def upt_conv_Cons)

lemma speech_block_values:
  "mean_square_f32 speech_block = 64000000"
  "low_band_f32 speech_block = 16000"
  "mid_band_f32 speech_block = 32000"
  "high_band_f32 speech_block = 32000"
  by (simp_all add: speech_block_def mean_square_f32_def low_band_f32_def mid_band_f32_def
        high_band_f32_def band_energy_f32_def succ_diff_def upt_conv_Cons f32_sum_def
        f32_numeral f32_multiple [where j = 12])

lemma steady_block_exact:
  "steady_block \<noteq> []"
  "mean_square steady_block = 203320832 / 3"
  "low_band steady_block = 64"
  "mid_band steady_block = 128"
  "high_band steady_block = 128"
  by (simp_all add: steady_block_def mean_square_def low_band_def mid_band_def high_band_def
        band_energy_def succ_diff_def upt_conv_Cons)

lemma f32_steady_mean: "f32 (203320832 / 3) = 67773608"
  by (subst f32_eval [where e = 3]) (simp_all add: round_to_even_def)

lemma steady_block_values:
  "mean_square_f32 steady_block = 67773608"
  "low_band_f32 steady_block = 64"
  "mid_band_f32 steady_block = 128"
  "high_band_f32 steady_block = 128"
  by (simp_all add: steady_block_def mean_square_f32_def low_band_f32_def mid_band_f32_def
        high_band_f32_def band_energy_f32_def succ_diff_def upt_conv_Cons f32_sum_def
        f32_numeral f32_multiple [where j = 12] f32_steady_mean)

lemma rounded_up_block_exact:
  "mean_square rounded_up_block = 19999998"
  "mid_fraction rounded_up_block = 2 / 5"
  "spectral_total rounded_up_block = 40090"
  by (simp_all add: rounded_up_block_def mean_square_def mid_fraction_def spectral_total_def
        low_band_def mid_band_def high_band_def band_energy_def succ_diff_def upt_conv_Cons)

lemma rounded_up_block_values:
  "mean_square_f32 rounded_up_block = 20000000"
  "low_band_f32 rounded_up_block = 8018"
  "mid_band_f32 rounded_up_block = 16036"
  "high_band_f32 rounded_up_block = 16036"
  by (simp_all add: rounded_up_block_def mean_square_f32_def low_band_f32_def mid_band_f32_def
        high_band_f32_def band_energy_f32_def succ_diff_def upt_conv_Cons f32_sum_def
        f32_eval_int round_to_even_def)

lemma rounded_down_block_exact:
  "mean_square rounded_down_block = 20000002"
  "mid_fraction rounded_down_block = 2 / 5"
  "spectral_total rounded_down_block = 40220"
  by (simp_all add: rounded_down_block_def mean_square_def mid_fraction_def spectral_total_def
        low_band_def mid_band_def high_band_def band_energy_def succ_diff_def upt_conv_Cons)

lemma rounded_down_block_values:
  "mean_square_f32 rounded_down_block = 19999994"
  by (simp_all add: rounded_down_block_def mean_square_f32_def f32_sum_def
        f32_eval_int round_to_even_def)

subsection \<open>The states that the example runs reach\<close>

lemma audio_level_silent_pair: "audio_level [0, 0] = 0"
  by (simp add: audio_level_def Let_def GAIN_def NOISE_GATE_def float_to_int16_def
        trunc_toward_zero_def f32_rules)

lemmas run_eval_defs =
  tick_def boot_def spec_config_def loop_app_def touch_defs
  isTouchDetected_def processAudio_defs touch_bytes_to_copy_def TOUCH_AUDIO_MAX_BYTES_def
  audio_level_silent_pair audio_level_loud_block capture_photo_step_def upload_photo_step_def
  ble_callback_def handleAudioControl_def startVoiceActivation_def
  startRecordingCommand_def

lemma short_silence_fields:
  "touchState short_silence = TOUCH_RECORDING_SILENCE"
  "currentAudioLevel short_silence = 0"
  "touchRecordingStartTime short_silence = 1000"
  "silenceStartTime short_silence = 1570"
  "recordingCommand short_silence"
  by (simp_all add: short_silence_def run_eval_defs)

lemma late_silence_fields:
  "touchState late_silence = TOUCH_RECORDING_SILENCE"
  "currentAudioLevel late_silence = 0"
  "touchRecordingStartTime late_silence = 1000"
  "silenceStartTime late_silence = 30950"
  by (simp_all add: late_silence_def run_eval_defs)

lemma finger_down_recording_fields:
  "touchState finger_down_recording = TOUCH_DETECTED"
  "recordingCommand finger_down_recording"
  "touchAudioAccumIndex finger_down_recording = 1024"
  by (simp_all add: finger_down_recording_def run_eval_defs)

subsection \<open>The pass that captures a frame\<close>

lemma handleTouchSensor_keeps_capture:
  assumes "isCapturingPhotos s"
  shows "isCapturingPhotos (handleTouchSensor cfg now tv s)"
    and "captureInterval (handleTouchSensor cfg now tv s) = captureInterval s"
  using assms by (cases "touchState s"; simp add: touch_frame_defs)+

lemma capture_photo_step_success:
  assumes "isCapturingPhotos s"
      and "captureInterval s = 0 \<or> now - lastCaptureTime s \<ge> word_of_int (captureInterval s)"
      and "\<not> photoDataUploading s" "connected s"
  shows "uploading_chunk frame 0 (capture_photo_step now (Some frame) s)"
    and "photo_notifies (trace (capture_photo_step now (Some frame) s)) = photo_notifies (trace s)"
  using assms
  by (simp_all add: capture_photo_step_def take_photo_def Let_def println_def emit_def obs_defs
        uploading_chunk_def split: option.split)

lemma upload_photo_step_first_chunk:
  assumes "uploading_chunk frame j s" and "length frame < 2 ^ 32" and "200 * j < length frame"
  shows "uploading_chunk frame (Suc j) (upload_photo_step s)"
    and "photo_notifies (trace (upload_photo_step s)) = photo_notifies (trace s) @ [photo_chunk frame j]"
proof -
  have s: "fb s = Some frame" "photoDataUploading s" "unat (sent_photo_bytes s) = 200 * j"
          "sent_photo_frames s = word_of_nat j"
    using assms(1,3) by (simp_all add: uploading_chunk_def)
  have lt: "unat (sent_photo_bytes s) < length frame"
    using s(3) assms(3) by simp
  note c = upload_photo_step_chunk [OF s(1,2) assms(2) lt]
  show "uploading_chunk frame (Suc j) (upload_photo_step s)"
    unfolding uploading_chunk_def using c s by (simp add: min_def)
  show "photo_notifies (trace (upload_photo_step s)) = photo_notifies (trace s) @ [photo_chunk frame j]"
    using c(1) s by (simp add: photo_chunk_def)
qed

lemma capture_pass:
  assumes "isCapturingPhotos s"
      and "captureInterval s = 0 \<or>
           millis_loop inp - lastCaptureTime s \<ge> word_of_int (captureInterval s)"
      and "\<not> photoDataUploading s" "connected s"
      and "camera_frame inp = Some frame" and "length frame < 2 ^ 32" and "frame \<noteq> []"
  shows "uploading_chunk frame 1 (loop_app cfg inp s)"
    and "photo_notifies (trace (loop_app cfg inp s)) = photo_notifies (trace s) @ [photo_chunk frame 0]"
proof -
  let ?a = "handleTouchSensor cfg (millis_touch inp) (touchRead inp) s"
  let ?b = "processAudio cfg (i2s_ok inp) (i2s_data inp) ?a"
  let ?c = "capture_photo_step (millis_loop inp) (Some frame) ?b"
  have b: "isCapturingPhotos ?b"
          "captureInterval ?b = 0 \<or>
           millis_loop inp - lastCaptureTime ?b \<ge> word_of_int (captureInterval ?b)"
          "\<not> photoDataUploading ?b" "connected ?b"
    using assms(1-4) by (simp_all add: handleTouchSensor_keeps_capture)
  note c = capture_photo_step_success [OF b, where frame = frame]
  have l: "loop_app cfg inp s = upload_photo_step ?c"
    using assms(5) by (simp add: loop_app_def Let_def)
  have pos: "200 * 0 < length frame"
    using assms(7) by simp
  note u = upload_photo_step_first_chunk [OF c(1) assms(6) pos]
  show "uploading_chunk frame 1 (loop_app cfg inp s)"
    unfolding l using u(1) by simp
  show "photo_notifies (trace (loop_app cfg inp s)) = photo_notifies (trace s) @ [photo_chunk frame 0]"
    unfolding l u(2) c(2) by simp
qed

lemma capture_drain:
  assumes "isCapturingPhotos s"
      and "captureInterval s = 0 \<or>
           millis_loop inp - lastCaptureTime s \<ge> word_of_int (captureInterval s)"
      and "\<not> photoDataUploading s" "connected s"
      and "camera_frame inp = Some frame" and "length frame < 2 ^ 32"
      and "Suc (length inps) = (length frame + 199) div 200"
  shows "photo_notifies (trace (run cfg (map Tick (inp # inps)) s)) =
           photo_notifies (trace s) @ map (photo_chunk frame) [0..<Suc (length inps)]"
    and "photoDataUploading (run cfg (map Tick (inp # inps)) s)"
    and "photo_notifies (trace (run cfg (map Tick (inp # inps @ [last_inp])) s)) =
           photo_notifies (trace s) @ map (photo_chunk frame) [0..<Suc (length inps)]
             @ [PhotoNotify [0xFF, 0xFF]]"
    and "\<not> photoDataUploading (run cfg (map Tick (inp # inps @ [last_inp])) s)"
proof -
  have ne: "frame \<noteq> []"
    using assms(7) by (cases frame) simp_all
  note first = capture_pass [OF assms(1-6) ne, of cfg]
  have "200 * Suc (length inps) < length frame + 200"
    unfolding assms(7) by (rule chunk_count_bounds(1))
  then have "200 * (1 + length inps) < length frame + 200"
    by simp
  from run_chunks [OF first(1) assms(6) this, of cfg]
  have mid: "uploading_chunk frame (Suc (length inps)) (run cfg (map Tick (inp # inps)) s)"
            "photo_notifies (trace (run cfg (map Tick (inp # inps)) s)) =
               photo_notifies (trace s) @ photo_chunk frame 0 # map (photo_chunk frame) [1..<Suc (length inps)]"
    using first(2) by simp_all
  have upt: "[0..<Suc (length inps)] = 0 # [1..<Suc (length inps)]"
    by (simp add: upt_conv_Cons del: upt_Suc)
  show 1: "photo_notifies (trace (run cfg (map Tick (inp # inps)) s)) =
           photo_notifies (trace s) @ map (photo_chunk frame) [0..<Suc (length inps)]"
    unfolding upt using mid(2) by simp
  show "photoDataUploading (run cfg (map Tick (inp # inps)) s)"
    using mid(1) by (simp add: uploading_chunk_def)
  have "length frame \<le> 200 * Suc (length inps)"
    unfolding assms(7) by (rule chunk_count_bounds(2))
  note last = loop_app_marker [OF mid(1) assms(6) this, of cfg last_inp]
  have r: "run cfg (map Tick (inp # inps @ [last_inp])) s
             = loop_app cfg last_inp (run cfg (map Tick (inp # inps)) s)"
    using run_append [of cfg "map Tick (inp # inps)" "[Tick last_inp]" s] by simp
  show "photo_notifies (trace (run cfg (map Tick (inp # inps @ [last_inp])) s)) =
           photo_notifies (trace s) @ map (photo_chunk frame) [0..<Suc (length inps)]
             @ [PhotoNotify [0xFF, 0xFF]]"
    unfolding r last(1) 1 by simp
  show "\<not> photoDataUploading (run cfg (map Tick (inp # inps @ [last_inp])) s)"
    unfolding r by (rule last(2))
qed

lemma photo_requested_fields:
  "isCapturingPhotos photo_requested"
  "captureInterval photo_requested = 0"
  "\<not> photoDataUploading photo_requested"
  "connected photo_requested"
  "trace photo_requested = []"
  by (simp_all add: photo_requested_def boot_def ble_callback_def handlePhotoControl_def
        release_fb_def Let_def)

lemma upload_1000_fields:
  "fb upload_1000 = Some frame_1000"
  "photoDataUploading upload_1000"
  "unat (sent_photo_bytes upload_1000) = 200"
  "sent_photo_frames upload_1000 = 1"
  "photo_notifies (trace upload_1000) = [PhotoNotify ([0, 0] @ take 200 frame_1000)]"
proof -
  have len: "length frame_1000 = 1000"
    by (simp add: frame_1000_def)
  have ne: "frame_1000 \<noteq> []"
    using len by auto
  have lt: "length frame_1000 < 2 ^ 32"
    by (simp add: len)
  have cam: "camera_frame tick_frame_1000 = Some frame_1000"
    by (simp add: tick_frame_1000_def)
  have due: "captureInterval photo_requested = 0 \<or>
             millis_loop tick_frame_1000 - lastCaptureTime photo_requested
               \<ge> word_of_int (captureInterval photo_requested)"
    by (simp add: photo_requested_fields)
  note c = capture_pass [OF photo_requested_fields(1) due photo_requested_fields(3,4) cam lt ne,
                         of spec_config, folded upload_1000_def]
  show "fb upload_1000 = Some frame_1000" "photoDataUploading upload_1000"
    using c(1) by (simp_all add: uploading_chunk_def)
  show "unat (sent_photo_bytes upload_1000) = 200"
    using c(1) by (simp add: uploading_chunk_def len)
  show "sent_photo_frames upload_1000 = 1"
    using c(1) by (simp add: uploading_chunk_def)
  show "photo_notifies (trace upload_1000) = [PhotoNotify ([0, 0] @ take 200 frame_1000)]"
    using c(2) by (simp add: photo_requested_fields photo_notifies_def photo_chunk_def)
qed
subsection \<open>The touch state machine\<close>

text \<open>
  C2. In \<open>TOUCH_RECORDING_ACTIVE\<close> or \<open>TOUCH_RECORDING_SILENCE\<close>, a pass whose elapsed
  time since the start of the recording has reached \<open>TOUCH_ACTIVATION_TIMEOUT\<close> ends in
  \<open>TOUCH_PROCESSING\<close>, whatever the audio level and the silence timer are: both for
  \<open>handleTouchSensor\<close> alone and for the whole pass of the loop.
\<close>

theorem safety_ceiling_forces_processing:
  assumes "touchState s = TOUCH_RECORDING_ACTIVE \<or> touchState s = TOUCH_RECORDING_SILENCE"
      and "millis_touch inp - touchRecordingStartTime s \<ge> TOUCH_ACTIVATION_TIMEOUT cfg"
    shows "touchState (handleTouchSensor cfg (millis_touch inp) (touchRead inp) s) = TOUCH_PROCESSING
         \<and> touchState (loop_app cfg inp s) = TOUCH_PROCESSING"
proof -
  have "touchState (handleTouchSensor cfg (millis_touch inp) (touchRead inp) s) = TOUCH_PROCESSING"
    using assms by (auto simp: touch_defs)
  then show ?thesis by (simp add: loop_app_touchState)
qed

theorem safety_ceiling_witness:
  "(touchState at_ceiling = TOUCH_RECORDING_ACTIVE \<or> touchState at_ceiling = TOUCH_RECORDING_SILENCE)
   \<and> millis_touch tick_31000 - touchRecordingStartTime at_ceiling \<ge> TOUCH_ACTIVATION_TIMEOUT spec_config
   \<and> currentAudioLevel at_ceiling > SILENCE_THRESHOLD spec_config
   \<and> touchState (loop_app spec_config tick_31000 at_ceiling) = TOUCH_PROCESSING"
  using safety_ceiling_forces_processing [where s = at_ceiling and inp = tick_31000 and cfg = spec_config]
  by (simp add: at_ceiling_def tick_31000_def spec_config_def boot_def)

text \<open>
  C1, as the code has it. In \<open>TOUCH_RECORDING_SILENCE\<close> with the level at or below the
  silence threshold, the pass ends in \<open>TOUCH_PROCESSING\<close> exactly when the silence has
  lasted \<open>TOUCH_SILENCE_DURATION_MS\<close> and the recording \<open>TOUCH_MIN_RECORDING_MS\<close>, or the
  recording has reached the safety ceiling. Below the ceiling, a silence that is long
  enough in a recording that is too short sends the machine back to
  \<open>TOUCH_RECORDING_ACTIVE\<close> with the silence timer cleared; otherwise it stays in
  \<open>TOUCH_RECORDING_SILENCE\<close> with the timer running. The recording flag, the start time
  and the session cursor are untouched: recording continues.
\<close>

theorem silence_tick_outcome:
  assumes "touchState s = TOUCH_RECORDING_SILENCE"
      and "currentAudioLevel s \<le> SILENCE_THRESHOLD cfg"
    shows "touchState (handleTouchSensor cfg now touchValue s) =
             (if now - touchRecordingStartTime s \<ge> TOUCH_ACTIVATION_TIMEOUT cfg \<or>
                 (now - silenceStartTime s \<ge> TOUCH_SILENCE_DURATION_MS cfg \<and>
                  now - touchRecordingStartTime s \<ge> TOUCH_MIN_RECORDING_MS cfg)
              then TOUCH_PROCESSING
              else if now - silenceStartTime s \<ge> TOUCH_SILENCE_DURATION_MS cfg
              then TOUCH_RECORDING_ACTIVE
              else TOUCH_RECORDING_SILENCE)
         \<and> silenceStartTime (handleTouchSensor cfg now touchValue s) =
             (if now - silenceStartTime s \<ge> TOUCH_SILENCE_DURATION_MS cfg \<and>
                 now - touchRecordingStartTime s < TOUCH_MIN_RECORDING_MS cfg
              then 0 else silenceStartTime s)
         \<and> recordingCommand (handleTouchSensor cfg now touchValue s) = recordingCommand s
         \<and> touchRecordingStartTime (handleTouchSensor cfg now touchValue s) = touchRecordingStartTime s
         \<and> touchAudioAccumIndex (handleTouchSensor cfg now touchValue s) = touchAudioAccumIndex s"
  using assms by (auto simp: touch_defs)

theorem silence_tick_witness:
  "touchState short_silence = TOUCH_RECORDING_SILENCE
   \<and> currentAudioLevel short_silence \<le> SILENCE_THRESHOLD spec_config
   \<and> touchState (handleTouchSensor spec_config 5600 60000 short_silence) = TOUCH_RECORDING_ACTIVE
   \<and> silenceStartTime (handleTouchSensor spec_config 5600 60000 short_silence) = 0
   \<and> recordingCommand (handleTouchSensor spec_config 5600 60000 short_silence)"
  using silence_tick_outcome
          [where s = short_silence and cfg = spec_config and now = 5600 and touchValue = 60000]
  by (simp add: short_silence_fields spec_config_def)

text \<open>
  The claim as the spec words it fails twice. With a silence of 4030 ms in a recording of
  4600 ms (minimum 5000 ms) the machine does not remain in \<open>TOUCH_RECORDING_SILENCE\<close>;
  and with a silence of only 50 ms the machine still goes to \<open>TOUCH_PROCESSING\<close> once
  the recording has lasted 30 s.
\<close>

theorem silence_tick_counterexample:
  "touchState short_silence = TOUCH_RECORDING_SILENCE
   \<and> currentAudioLevel short_silence \<le> SILENCE_THRESHOLD spec_config
   \<and> 5600 - silenceStartTime short_silence \<ge> TOUCH_SILENCE_DURATION_MS spec_config
   \<and> 5600 - touchRecordingStartTime short_silence < TOUCH_MIN_RECORDING_MS spec_config
   \<and> touchState (handleTouchSensor spec_config 5600 60000 short_silence) \<noteq> TOUCH_RECORDING_SILENCE
   \<and> touchState late_silence = TOUCH_RECORDING_SILENCE
   \<and> currentAudioLevel late_silence \<le> SILENCE_THRESHOLD spec_config
   \<and> 31000 - silenceStartTime late_silence < TOUCH_SILENCE_DURATION_MS spec_config
   \<and> touchState (handleTouchSensor spec_config 31000 60000 late_silence) = TOUCH_PROCESSING"
  by (simp add: short_silence_fields late_silence_fields touch_defs)
     (simp add: spec_config_def)

text \<open>
  C4, as the code has it. When the touch is released in \<open>TOUCH_DETECTED\<close>, the machine
  enters \<open>TOUCH_RECORDING_ACTIVE\<close>, the recording is marked active, the start time is the
  current time and the silence timer is cleared. The session cursor is reset to 0 and
  the wake-word flag cleared only if no recording was marked active before; otherwise
  both keep their values.
\<close>

theorem touch_release_starts_recording:
  assumes "touchState s = TOUCH_DETECTED"
      and "\<not> isTouchDetected cfg touchValue"
    shows "touchState (handleTouchSensor cfg now touchValue s) = TOUCH_RECORDING_ACTIVE
         \<and> recordingCommand (handleTouchSensor cfg now touchValue s)
         \<and> touchRecordingStartTime (handleTouchSensor cfg now touchValue s) = now
         \<and> silenceStartTime (handleTouchSensor cfg now touchValue s) = 0
         \<and> touchAudioAccumIndex (handleTouchSensor cfg now touchValue s) =
             (if recordingCommand s then touchAudioAccumIndex s else 0)
         \<and> listeningForWakeWord (handleTouchSensor cfg now touchValue s) =
             (if recordingCommand s then listeningForWakeWord s else False)"
  using assms by (auto simp: touch_defs)

theorem touch_release_witness:
  "touchState finger_down = TOUCH_DETECTED
   \<and> \<not> isTouchDetected spec_config 60000
   \<and> \<not> recordingCommand finger_down
   \<and> touchState (handleTouchSensor spec_config 1000 60000 finger_down) = TOUCH_RECORDING_ACTIVE
   \<and> recordingCommand (handleTouchSensor spec_config 1000 60000 finger_down)
   \<and> touchAudioAccumIndex (handleTouchSensor spec_config 1000 60000 finger_down) = 0
   \<and> \<not> listeningForWakeWord (handleTouchSensor spec_config 1000 60000 finger_down)"
  using touch_release_starts_recording
          [where s = finger_down and cfg = spec_config and now = 1000 and touchValue = 60000]
  by (simp add: finger_down_def spec_config_def boot_def isTouchDetected_def)

text \<open>
  With a recording already marked active, the release enters \<open>TOUCH_RECORDING_ACTIVE\<close>
  and the cursor stays at 1024.
\<close>

theorem touch_release_counterexample:
  "touchState finger_down_recording = TOUCH_DETECTED
   \<and> \<not> isTouchDetected spec_config 60000
   \<and> touchState (handleTouchSensor spec_config 41000 60000 finger_down_recording)
       = TOUCH_RECORDING_ACTIVE
   \<and> touchAudioAccumIndex (handleTouchSensor spec_config 41000 60000 finger_down_recording) = 1024"
  by (simp add: finger_down_recording_fields touch_defs isTouchDetected_def)
     (simp add: spec_config_def)

text \<open>
  C10. In \<open>TOUCH_PROCESSING\<close> with a recording to flush and no client connected (or no
  audio characteristic), \<open>sendAudioData\<close> returns the state as it is, the pass of
  \<open>handleTouchSensor\<close> writes four serial messages and no notification, none of the
  messages tells of a failed send, and the session cursor is 0 afterwards: the recording
  is gone.
\<close>

theorem disconnected_flush_discards_session:
  assumes "touchState s = TOUCH_PROCESSING"
      and "recordingCommand s"
      and "\<not> connected s \<or> \<not> audioDataCharacteristic s"
    shows "sendAudioData (touchAudioAccum s) (touchAudioAccumIndex s) s = s
         \<and> trace (handleTouchSensor cfg now touchValue s) =
             trace s @
             [Serial msg_sending_final,
              Serial (if touchAudioAccumIndex s > 0 then msg_full_session_sent
                      else if audioBufferIndex s > 0
                      then msg_fallback_sent
                      else msg_no_audio_captured),
              Serial msg_touch_recording_complete,
              Serial msg_now_taking_photo]
         \<and> touchAudioAccumIndex (handleTouchSensor cfg now touchValue s) = 0
         \<and> audioBufferIndex (handleTouchSensor cfg now touchValue s) = 0
         \<and> \<not> recordingCommand (handleTouchSensor cfg now touchValue s)
         \<and> touchState (handleTouchSensor cfg now touchValue s) = TOUCH_PROCESSING"
  using assms by (auto simp: touch_defs)

theorem disconnected_flush_witness:
  "touchState offline_session = TOUCH_PROCESSING
   \<and> recordingCommand offline_session
   \<and> \<not> connected offline_session
   \<and> touchAudioAccumIndex offline_session = 64000
   \<and> trace (handleTouchSensor spec_config 13000 60000 offline_session) =
       [Serial msg_sending_final,
        Serial msg_full_session_sent,
        Serial msg_touch_recording_complete,
        Serial msg_now_taking_photo]
   \<and> touchAudioAccumIndex (handleTouchSensor spec_config 13000 60000 offline_session) = 0"
  using disconnected_flush_discards_session
          [where s = offline_session and cfg = spec_config and now = 13000 and touchValue = 60000]
  by (simp add: offline_session_def spec_config_def boot_def)

subsection \<open>Photo capture and upload\<close>

text \<open>
  C8. The pass that enters the body of \<open>TOUCH_PROCESSING\<close> with a recording to flush
  requests one single-shot capture. When a client is connected, no upload is running and
  the camera delivers no frame buffer, that pass calls the camera once and leaves no
  capture pending, no frame buffer and no upload; the next pass, whatever it reads, puts
  the machine in \<open>TOUCH_IDLE\<close>, does not call the camera again and has sent no photo
  notification.
\<close>

theorem failed_capture_returns_to_idle:
  assumes "touchState s = TOUCH_PROCESSING"
      and "recordingCommand s"
      and "\<not> isCapturingPhotos s"
      and "\<not> photoDataUploading s"
      and "connected s"
      and "camera_frame inp = None"
    shows "camera_gets (trace (loop_app cfg inp s)) = camera_gets (trace s) + 1
         \<and> fb (loop_app cfg inp s) = None
         \<and> \<not> photoDataUploading (loop_app cfg inp s)
         \<and> \<not> isCapturingPhotos (loop_app cfg inp s)
         \<and> touchState (loop_app cfg inp s) = TOUCH_PROCESSING
         \<and> touchState (loop_app cfg inp' (loop_app cfg inp s)) = TOUCH_IDLE
         \<and> camera_gets (trace (loop_app cfg inp' (loop_app cfg inp s)))
             = camera_gets (trace (loop_app cfg inp s))
         \<and> photo_notifies (trace (loop_app cfg inp' (loop_app cfg inp s)))
             = photo_notifies (trace s)
         \<and> \<not> photoDataUploading (loop_app cfg inp' (loop_app cfg inp s))
         \<and> \<not> isCapturingPhotos (loop_app cfg inp' (loop_app cfg inp s))"
proof -
  let ?a = "handleTouchSensor cfg (millis_touch inp) (touchRead inp) s"
  let ?b = "processAudio cfg (i2s_ok inp) (i2s_data inp) ?a"
  let ?c = "capture_photo_step (millis_loop inp) None ?b"
  have a: "touchState ?a = TOUCH_PROCESSING" "\<not> recordingCommand ?a"
          "isCapturingPhotos ?a" "captureInterval ?a = 0"
    using assms(1-3) by (rule touch_processing_entry)+
  have b: "isCapturingPhotos ?b" "captureInterval ?b = 0" "\<not> photoDataUploading ?b" "connected ?b"
    using a assms(4,5) by simp_all
  note c = capture_photo_step_failed [OF b, of "millis_loop inp"]
  have s1: "loop_app cfg inp s = ?c"
    using c(2) assms(6) by (simp add: loop_app_def Let_def upload_photo_step_idle)
  have c_state: "touchState ?c = TOUCH_PROCESSING" "\<not> recordingCommand ?c"
    using a c(4) by simp_all
  let ?d = "handleTouchSensor cfg (millis_touch inp') (touchRead inp') ?c"
  let ?e = "processAudio cfg (i2s_ok inp') (i2s_data inp') ?d"
  have d: "touchState ?d = TOUCH_IDLE" "\<not> recordingCommand ?d" "\<not> isCapturingPhotos ?d"
    using c_state c(1) by (rule touch_processing_exit)+
  have e: "\<not> isCapturingPhotos ?e" "\<not> photoDataUploading ?e"
    using d c(2) by simp_all
  have s2: "loop_app cfg inp' ?c = ?e"
    using e by (simp add: loop_app_def Let_def capture_photo_step_idle upload_photo_step_idle)
  show ?thesis
    unfolding s1 s2 using c d e c_state by simp
qed

theorem failed_capture_witness:
  "touchState session_done = TOUCH_PROCESSING
   \<and> recordingCommand session_done
   \<and> \<not> isCapturingPhotos session_done
   \<and> \<not> photoDataUploading session_done
   \<and> connected session_done
   \<and> camera_frame tick_no_frame = None
   \<and> camera_gets (trace (loop_app spec_config tick_no_frame session_done)) = 1
   \<and> touchState (loop_app spec_config tick_next (loop_app spec_config tick_no_frame session_done))
       = TOUCH_IDLE
   \<and> camera_gets (trace (loop_app spec_config tick_next
         (loop_app spec_config tick_no_frame session_done))) = 1
   \<and> photo_notifies (trace (loop_app spec_config tick_next
         (loop_app spec_config tick_no_frame session_done))) = []"
  using failed_capture_returns_to_idle
          [where s = session_done and cfg = spec_config and inp = tick_no_frame and inp' = tick_next]
  by (simp add: session_done_def tick_no_frame_def boot_def obs_defs)

text \<open>
  C5, as the code has it. While an upload is in progress (\<open>photoDataUploading\<close> with a
  frame buffer, of which no more than its length has been sent), every pass of the loop
  sends exactly one photo notification. While bytes remain it is the two-byte chunk index
  followed by the next bytes of the frame, 200 of them or all that remain if fewer; once
  none remain it is the two-byte marker \<open>FF FF\<close>, and the upload ends. So a frame longer
  than 200 bytes never goes out in one pass (a shorter one does). The pass that captures
  a frame is the first pass of its upload: when a capture is due on a connected device with
  no upload in progress and the camera delivers a frame of \<open>n > 0\<close> bytes, that pass and
  the passes after it send the \<open>(n + 199) div 200\<close> chunks of the frame, one per pass; the
  upload is still in progress after them, and the pass that follows sends the marker: for
  1000 bytes, five chunks and then the marker.
\<close>

theorem upload_one_chunk_per_pass:
  assumes "fb s = Some frame"
      and "photoDataUploading s"
      and "length frame < 2 ^ 32"
      and "unat (sent_photo_bytes s) \<le> length frame"
    shows "photo_notifies (trace (loop_app cfg inp s)) =
             photo_notifies (trace s) @
               [PhotoNotify
                  (if unat (sent_photo_bytes s) < length frame
                   then [ucast (sent_photo_frames s AND 0xFF),
                         ucast (drop_bit 8 (sent_photo_frames s) AND 0xFF)]
                        @ take 200 (drop (unat (sent_photo_bytes s)) frame)
                   else [0xFF, 0xFF])]
         \<and> length (take 200 (drop (unat (sent_photo_bytes s)) frame)) =
             min 200 (length frame - unat (sent_photo_bytes s))
         \<and> unat (sent_photo_bytes (loop_app cfg inp s)) =
             min (length frame) (unat (sent_photo_bytes s) + 200)
         \<and> photoDataUploading (loop_app cfg inp s) = (unat (sent_photo_bytes s) < length frame)
         \<and> (isCapturingPhotos t \<and> \<not> photoDataUploading t \<and> connected t \<and>
              (captureInterval t = 0 \<or>
               millis_loop first - lastCaptureTime t \<ge> word_of_int (captureInterval t)) \<and>
              camera_frame first = Some frame \<and>
              Suc (length inps) = (length frame + 199) div 200 \<longrightarrow>
              photo_notifies (trace (run cfg (map Tick (first # inps)) t)) =
                photo_notifies (trace t) @ map (photo_chunk frame) [0..<Suc (length inps)]
              \<and> photoDataUploading (run cfg (map Tick (first # inps)) t)
              \<and> photo_notifies (trace (run cfg (map Tick (first # inps @ [inp])) t)) =
                photo_notifies (trace t) @ map (photo_chunk frame) [0..<Suc (length inps)]
                  @ [PhotoNotify [0xFF, 0xFF]]
              \<and> \<not> photoDataUploading (run cfg (map Tick (first # inps @ [inp])) t))"
proof -
  let ?b = "processAudio cfg (i2s_ok inp) (i2s_data inp)
                (handleTouchSensor cfg (millis_touch inp) (touchRead inp) s)"
  have l: "loop_app cfg inp s = upload_photo_step ?b"
    using assms(2) by (rule loop_app_while_uploading)
  have b: "fb ?b = Some frame" "photoDataUploading ?b"
    using assms(1,2) by simp_all
  have same: "sent_photo_bytes ?b = sent_photo_bytes s" "sent_photo_frames ?b = sent_photo_frames s"
             "photo_notifies (trace ?b) = photo_notifies (trace s)"
    by simp_all
  have p1: "photo_notifies (trace (loop_app cfg inp s)) =
             photo_notifies (trace s) @
               [PhotoNotify
                  (if unat (sent_photo_bytes s) < length frame
                   then [ucast (sent_photo_frames s AND 0xFF),
                         ucast (drop_bit 8 (sent_photo_frames s) AND 0xFF)]
                        @ take 200 (drop (unat (sent_photo_bytes s)) frame)
                   else [0xFF, 0xFF])]"
   and p2: "unat (sent_photo_bytes (loop_app cfg inp s)) =
             min (length frame) (unat (sent_photo_bytes s) + 200)"
   and p3: "photoDataUploading (loop_app cfg inp s) = (unat (sent_photo_bytes s) < length frame)"
  proof -
    show "photo_notifies (trace (loop_app cfg inp s)) =
             photo_notifies (trace s) @
               [PhotoNotify
                  (if unat (sent_photo_bytes s) < length frame
                   then [ucast (sent_photo_frames s AND 0xFF),
                         ucast (drop_bit 8 (sent_photo_frames s) AND 0xFF)]
                        @ take 200 (drop (unat (sent_photo_bytes s)) frame)
                   else [0xFF, 0xFF])]"
    proof (cases "unat (sent_photo_bytes s) < length frame")
      case True
      then have "unat (sent_photo_bytes ?b) < length frame" by (simp only: same)
      from upload_photo_step_chunk(1) [OF b assms(3) this] True
      show ?thesis unfolding l same by simp
    next
      case False
      then have "unat (sent_photo_bytes ?b) = length frame"
        using assms(4) by (simp only: same)
      from upload_photo_step_marker(1) [OF b assms(3) this] False
      show ?thesis unfolding l same by simp
    qed
    show "unat (sent_photo_bytes (loop_app cfg inp s)) =
             min (length frame) (unat (sent_photo_bytes s) + 200)"
    proof (cases "unat (sent_photo_bytes s) < length frame")
      case True
      then have "unat (sent_photo_bytes ?b) < length frame" by (simp only: same)
      from upload_photo_step_chunk(2) [OF b assms(3) this]
      show ?thesis unfolding l same .
    next
      case False
      then have e: "unat (sent_photo_bytes ?b) = length frame"
        using assms(4) by (simp only: same)
      from upload_photo_step_marker(4) [OF b assms(3) this] e
      show ?thesis unfolding l same by simp
    qed
    show "photoDataUploading (loop_app cfg inp s) = (unat (sent_photo_bytes s) < length frame)"
    proof (cases "unat (sent_photo_bytes s) < length frame")
      case True
      then have "unat (sent_photo_bytes ?b) < length frame" by (simp only: same)
      from upload_photo_step_chunk(4) [OF b assms(3) this] True
      show ?thesis unfolding l by simp
    next
      case False
      then have "unat (sent_photo_bytes ?b) = length frame"
        using assms(4) by (simp only: same)
      from upload_photo_step_marker(2) [OF b assms(3) this] False
      show ?thesis unfolding l by simp
    qed
  qed
  have p4: "length (take 200 (drop (unat (sent_photo_bytes s)) frame)) =
             min 200 (length frame - unat (sent_photo_bytes s))"
    by simp
  have p5: "isCapturingPhotos t \<and> \<not> photoDataUploading t \<and> connected t \<and>
              (captureInterval t = 0 \<or>
               millis_loop first - lastCaptureTime t \<ge> word_of_int (captureInterval t)) \<and>
              camera_frame first = Some frame \<and>
              Suc (length inps) = (length frame + 199) div 200 \<longrightarrow>
              photo_notifies (trace (run cfg (map Tick (first # inps)) t)) =
                photo_notifies (trace t) @ map (photo_chunk frame) [0..<Suc (length inps)]
              \<and> photoDataUploading (run cfg (map Tick (first # inps)) t)
              \<and> photo_notifies (trace (run cfg (map Tick (first # inps @ [inp])) t)) =
                photo_notifies (trace t) @ map (photo_chunk frame) [0..<Suc (length inps)]
                  @ [PhotoNotify [0xFF, 0xFF]]
              \<and> \<not> photoDataUploading (run cfg (map Tick (first # inps @ [inp])) t)"
  proof (rule impI)
    assume a: "isCapturingPhotos t \<and> \<not> photoDataUploading t \<and> connected t \<and>
              (captureInterval t = 0 \<or>
               millis_loop first - lastCaptureTime t \<ge> word_of_int (captureInterval t)) \<and>
              camera_frame first = Some frame \<and>
              Suc (length inps) = (length frame + 199) div 200"
    then have h: "isCapturingPhotos t"
                 "captureInterval t = 0 \<or>
                  millis_loop first - lastCaptureTime t \<ge> word_of_int (captureInterval t)"
                 "\<not> photoDataUploading t" "connected t" "camera_frame first = Some frame"
      by blast+
    from a have n: "Suc (length inps) = (length frame + 199) div 200"
      by blast
    note d = capture_drain [OF h assms(3) n, of cfg]
    show "photo_notifies (trace (run cfg (map Tick (first # inps)) t)) =
                photo_notifies (trace t) @ map (photo_chunk frame) [0..<Suc (length inps)]
              \<and> photoDataUploading (run cfg (map Tick (first # inps)) t)
              \<and> photo_notifies (trace (run cfg (map Tick (first # inps @ [inp])) t)) =
                photo_notifies (trace t) @ map (photo_chunk frame) [0..<Suc (length inps)]
                  @ [PhotoNotify [0xFF, 0xFF]]
              \<and> \<not> photoDataUploading (run cfg (map Tick (first # inps @ [inp])) t)"
      by (intro conjI d)
  qed
  show ?thesis
    by (intro conjI p1 p2 p3 p4 p5)
qed

theorem upload_1000_witness:
  "isCapturingPhotos photo_requested
   \<and> \<not> photoDataUploading photo_requested
   \<and> connected photo_requested
   \<and> captureInterval photo_requested = 0
   \<and> camera_frame tick_frame_1000 = Some frame_1000
   \<and> length frame_1000 = 1000
   \<and> fb upload_1000 = Some frame_1000
   \<and> photoDataUploading upload_1000
   \<and> unat (sent_photo_bytes upload_1000) = 200
   \<and> photo_notifies (trace (loop_app spec_config tick_quiet upload_1000)) =
       [PhotoNotify ([0, 0] @ take 200 frame_1000),
        PhotoNotify ([1, 0] @ take 200 (drop 200 frame_1000))]
   \<and> photo_notifies (trace (run spec_config
         (map Tick (tick_frame_1000 # replicate 4 tick_quiet)) photo_requested)) =
       [PhotoNotify ([0, 0] @ take 200 frame_1000),
        PhotoNotify ([1, 0] @ take 200 (drop 200 frame_1000)),
        PhotoNotify ([2, 0] @ take 200 (drop 400 frame_1000)),
        PhotoNotify ([3, 0] @ take 200 (drop 600 frame_1000)),
        PhotoNotify ([4, 0] @ take 200 (drop 800 frame_1000))]
   \<and> photoDataUploading (run spec_config
         (map Tick (tick_frame_1000 # replicate 4 tick_quiet)) photo_requested)
   \<and> photo_notifies (trace (run spec_config
         (map Tick (tick_frame_1000 # replicate 4 tick_quiet @ [tick_quiet])) photo_requested)) =
       [PhotoNotify ([0, 0] @ take 200 frame_1000),
        PhotoNotify ([1, 0] @ take 200 (drop 200 frame_1000)),
        PhotoNotify ([2, 0] @ take 200 (drop 400 frame_1000)),
        PhotoNotify ([3, 0] @ take 200 (drop 600 frame_1000)),
        PhotoNotify ([4, 0] @ take 200 (drop 800 frame_1000)),
        PhotoNotify [0xFF, 0xFF]]
   \<and> \<not> photoDataUploading (run spec_config
         (map Tick (tick_frame_1000 # replicate 4 tick_quiet @ [tick_quiet])) photo_requested)"
proof -
  have len: "length frame_1000 = 1000"
    by (simp add: frame_1000_def)
  have cam: "camera_frame tick_frame_1000 = Some frame_1000"
    by (simp add: tick_frame_1000_def)
  have h: "fb upload_1000 = Some frame_1000" "photoDataUploading upload_1000"
          "length frame_1000 < 2 ^ 32" "unat (sent_photo_bytes upload_1000) \<le> length frame_1000"
    by (simp_all add: upload_1000_fields len)
  have start: "isCapturingPhotos photo_requested \<and> \<not> photoDataUploading photo_requested \<and>
               connected photo_requested \<and>
               (captureInterval photo_requested = 0 \<or>
                millis_loop tick_frame_1000 - lastCaptureTime photo_requested
                  \<ge> word_of_int (captureInterval photo_requested)) \<and>
               camera_frame tick_frame_1000 = Some frame_1000 \<and>
               Suc (length (replicate 4 tick_quiet)) = (length frame_1000 + 199) div 200"
    by (simp add: photo_requested_fields cam len)
  have chunks: "map (photo_chunk frame_1000) [0..<Suc (length (replicate 4 tick_quiet))] =
       [PhotoNotify ([0, 0] @ take 200 frame_1000),
        PhotoNotify ([1, 0] @ take 200 (drop 200 frame_1000)),
        PhotoNotify ([2, 0] @ take 200 (drop 400 frame_1000)),
        PhotoNotify ([3, 0] @ take 200 (drop 600 frame_1000)),
        PhotoNotify ([4, 0] @ take 200 (drop 800 frame_1000))]"
  proof -
    have "Suc (length (replicate 4 tick_quiet)) = 5" by simp
    then show ?thesis
      unfolding upt_0_5 by (simp add: photo_chunk_def upt_0_5)
  qed
  note t = upload_one_chunk_per_pass
         [OF h, where cfg = spec_config and inp = tick_quiet and inps = "replicate 4 tick_quiet"
            and t = photo_requested and first = tick_frame_1000]
  from t have pass: "photo_notifies (trace (loop_app spec_config tick_quiet upload_1000)) =
       [PhotoNotify ([0, 0] @ take 200 frame_1000),
        PhotoNotify ([1, 0] @ take 200 (drop 200 frame_1000))]"
    by (simp add: upload_1000_fields len)
  from t start
  have "photo_notifies (trace (run spec_config
            (map Tick (tick_frame_1000 # replicate 4 tick_quiet)) photo_requested)) =
          photo_notifies (trace photo_requested) @
          map (photo_chunk frame_1000) [0..<Suc (length (replicate 4 tick_quiet))]
        \<and> photoDataUploading (run spec_config
            (map Tick (tick_frame_1000 # replicate 4 tick_quiet)) photo_requested)
        \<and> photo_notifies (trace (run spec_config
            (map Tick (tick_frame_1000 # replicate 4 tick_quiet @ [tick_quiet])) photo_requested)) =
          photo_notifies (trace photo_requested) @
          map (photo_chunk frame_1000) [0..<Suc (length (replicate 4 tick_quiet))]
            @ [PhotoNotify [0xFF, 0xFF]]
        \<and> \<not> photoDataUploading (run spec_config
            (map Tick (tick_frame_1000 # replicate 4 tick_quiet @ [tick_quiet])) photo_requested)"
    by blast
  then have drain: "photo_notifies (trace (run spec_config
            (map Tick (tick_frame_1000 # replicate 4 tick_quiet)) photo_requested)) =
       [PhotoNotify ([0, 0] @ take 200 frame_1000),
        PhotoNotify ([1, 0] @ take 200 (drop 200 frame_1000)),
        PhotoNotify ([2, 0] @ take 200 (drop 400 frame_1000)),
        PhotoNotify ([3, 0] @ take 200 (drop 600 frame_1000)),
        PhotoNotify ([4, 0] @ take 200 (drop 800 frame_1000))]"
      "photoDataUploading (run spec_config
            (map Tick (tick_frame_1000 # replicate 4 tick_quiet)) photo_requested)"
      "photo_notifies (trace (run spec_config
            (map Tick (tick_frame_1000 # replicate 4 tick_quiet @ [tick_quiet])) photo_requested)) =
       [PhotoNotify ([0, 0] @ take 200 frame_1000),
        PhotoNotify ([1, 0] @ take 200 (drop 200 frame_1000)),
        PhotoNotify ([2, 0] @ take 200 (drop 400 frame_1000)),
        PhotoNotify ([3, 0] @ take 200 (drop 600 frame_1000)),
        PhotoNotify ([4, 0] @ take 200 (drop 800 frame_1000)),
        PhotoNotify [0xFF, 0xFF]]"
      "\<not> photoDataUploading (run spec_config
            (map Tick (tick_frame_1000 # replicate 4 tick_quiet @ [tick_quiet])) photo_requested)"
    unfolding chunks by (simp_all add: photo_requested_fields photo_notifies_def)
  show ?thesis
    by (intro conjI photo_requested_fields cam len h(1,2) upload_1000_fields(3) pass drain)
qed

text \<open>
  A frame of three bytes goes out whole, in the pass that captures it; the next pass sends
  the marker.
\<close>

theorem upload_small_frame_counterexample:
  "connected photo_requested
   \<and> isCapturingPhotos photo_requested
   \<and> camera_frame tick_frame_3 = Some [1, 2, 3]
   \<and> fb (loop_app spec_config tick_frame_3 photo_requested) = Some [1, 2, 3]
   \<and> photo_notifies (trace (loop_app spec_config tick_frame_3 photo_requested)) =
       [PhotoNotify ([0, 0] @ [1, 2, 3])]
   \<and> photoDataUploading (loop_app spec_config tick_frame_3 photo_requested)
   \<and> photo_notifies (trace (loop_app spec_config tick_quiet
         (loop_app spec_config tick_frame_3 photo_requested))) =
       [PhotoNotify ([0, 0] @ [1, 2, 3]), PhotoNotify [0xFF, 0xFF]]"
  by (simp add: photo_requested_def tick_frame_3_def tick_quiet_def spec_config_def boot_def
        ble_callback_def handlePhotoControl_def release_fb_def Let_def
        loop_app_def touch_defs take_photo_def println_def emit_def
        processAudio_def capture_photo_step_def upload_photo_step_def isTouchDetected_def
        photo_notifies_def)

subsection \<open>The session buffer and the audio level\<close>

text \<open>
  C6. Where the write cursor is within the capacity and the arrays have their declared
  sizes, a pass of \<open>processAudio\<close> keeps it so: the cursor never decreases, it advances
  by no more than the capacity that was left, and the session buffer keeps its length, so
  no byte is written past its end. The pass leaves the touch state, the recording flag
  and both timers alone. With the buffer full, the cursor and the buffer do not change and
  the only output of an append that is attempted is the message that the buffer is full.
  The next state of the touch machine does not depend on the cursor or on the buffer. A
  whole pass of the loop keeps the bounds, and they hold in every state that the device
  reaches from its start.
\<close>

theorem session_buffer_stays_in_bounds:
  assumes "buffer_inv cfg s"
    shows "buffer_inv cfg (processAudio cfg ok data s)
         \<and> unat (touchAudioAccumIndex s) \<le> unat (touchAudioAccumIndex (processAudio cfg ok data s))
         \<and> unat (touchAudioAccumIndex (processAudio cfg ok data s)) - unat (touchAudioAccumIndex s)
             \<le> TOUCH_AUDIO_MAX_BYTES - unat (touchAudioAccumIndex s)
         \<and> touchState (processAudio cfg ok data s) = touchState s
         \<and> recordingCommand (processAudio cfg ok data s) = recordingCommand s
         \<and> touchRecordingStartTime (processAudio cfg ok data s) = touchRecordingStartTime s
         \<and> silenceStartTime (processAudio cfg ok data s) = silenceStartTime s
         \<and> (unat (touchAudioAccumIndex s) = TOUCH_AUDIO_MAX_BYTES \<longrightarrow>
              touchAudioAccumIndex (processAudio cfg ok data s) = touchAudioAccumIndex s
              \<and> touchAudioAccum (processAudio cfg ok data s) = touchAudioAccum s
              \<and> trace (processAudio cfg ok data s) =
                  trace s @
                  (if block_processed cfg ok data s \<and> recordingCommand s \<and>
                      (touchState s = TOUCH_RECORDING_ACTIVE \<or>
                       touchState s = TOUCH_RECORDING_SILENCE)
                   then [Serial msg_buffer_full] else []))
         \<and> touchState (handleTouchSensor cfg now touchValue
                          (s\<lparr>touchAudioAccumIndex := k, touchAudioAccum := a\<rparr>))
             = touchState (handleTouchSensor cfg now touchValue s)
         \<and> buffer_inv cfg (loop_app cfg inp s)
         \<and> (\<forall>steps mic. buffer_inv cfg (run cfg steps (boot cfg mic)))"
proof -
  let ?p = "processAudio cfg ok data s"
  note inv = processAudio_buffer_inv [OF assms, of ok data]
  have cap: "unat (touchAudioAccumIndex ?p) - unat (touchAudioAccumIndex s)
               \<le> TOUCH_AUDIO_MAX_BYTES - unat (touchAudioAccumIndex s)"
    using inv(1) unfolding buffer_inv_def by (intro diff_le_mono) simp
  have frame: "touchState ?p = touchState s" "recordingCommand ?p = recordingCommand s"
              "touchRecordingStartTime ?p = touchRecordingStartTime s"
              "silenceStartTime ?p = silenceStartTime s"
    by simp_all
  have full: "unat (touchAudioAccumIndex s) = TOUCH_AUDIO_MAX_BYTES \<longrightarrow>
              touchAudioAccumIndex ?p = touchAudioAccumIndex s
              \<and> touchAudioAccum ?p = touchAudioAccum s
              \<and> trace ?p =
                  trace s @
                  (if block_processed cfg ok data s \<and> recordingCommand s \<and>
                      (touchState s = TOUCH_RECORDING_ACTIVE \<or>
                       touchState s = TOUCH_RECORDING_SILENCE)
                   then [Serial msg_buffer_full] else [])"
  proof (rule impI)
    assume f: "unat (touchAudioAccumIndex s) = TOUCH_AUDIO_MAX_BYTES"
    show "touchAudioAccumIndex ?p = touchAudioAccumIndex s
              \<and> touchAudioAccum ?p = touchAudioAccum s
              \<and> trace ?p =
                  trace s @
                  (if block_processed cfg ok data s \<and> recordingCommand s \<and>
                      (touchState s = TOUCH_RECORDING_ACTIVE \<or>
                       touchState s = TOUCH_RECORDING_SILENCE)
                   then [Serial msg_buffer_full] else [])"
    proof (cases "block_processed cfg ok data s")
      case True
      let ?blk = "take (I2S_READ_LEN cfg) data"
      let ?u = "update_audio_level ?blk
                  (s\<lparr>audioBuffer := ?blk @ drop (length ?blk) (audioBuffer s)\<rparr>)"
      have u: "unat (touchAudioAccumIndex ?u) = TOUCH_AUDIO_MAX_BYTES"
        using f by (simp add: update_audio_level_eq)
      from accumulate_touch_audio_full [OF u, of cfg] True
      show ?thesis
        unfolding processAudio_processed [OF True] by (simp add: update_audio_level_eq)
    next
      case False
      then show ?thesis
        unfolding processAudio_skipped [OF False] by simp
    qed
  qed
  have reach: "\<forall>steps mic. buffer_inv cfg (run cfg steps (boot cfg mic))"
    by (intro allI run_buffer_inv boot_buffer_inv)
  show ?thesis
    by (intro conjI inv cap frame full handleTouchSensor_ignores_buffer(1)
          loop_app_buffer_inv [OF assms] reach)
qed

theorem session_buffer_witness:
  "buffer_inv spec_config session_full
   \<and> unat (touchAudioAccumIndex session_full) = TOUCH_AUDIO_MAX_BYTES
   \<and> block_processed spec_config True [0, 0] session_full
   \<and> touchAudioAccumIndex (processAudio spec_config True [0, 0] session_full) = 192000
   \<and> trace (processAudio spec_config True [0, 0] session_full) = [Serial msg_buffer_full]
   \<and> touchState (processAudio spec_config True [0, 0] session_full) = TOUCH_RECORDING_ACTIVE
   \<and> recordingCommand (processAudio spec_config True [0, 0] session_full)"
proof -
  have inv: "buffer_inv spec_config session_full"
    by (simp add: buffer_inv_def session_full_def boot_def spec_config_def TOUCH_AUDIO_MAX_BYTES_def)
  have facts: "unat (touchAudioAccumIndex session_full) = TOUCH_AUDIO_MAX_BYTES"
              "block_processed spec_config True [0, 0] session_full"
              "touchAudioAccumIndex session_full = 192000"
              "trace session_full = []"
              "touchState session_full = TOUCH_RECORDING_ACTIVE"
              "recordingCommand session_full"
    by (simp_all add: session_full_def boot_def spec_config_def TOUCH_AUDIO_MAX_BYTES_def
          block_processed_def)
  from session_buffer_stays_in_bounds
         [OF inv, where ok = True and data = "[0, 0]" and now = 0 and touchValue = 0
            and k = 0 and a = "[]" and inp = tick_quiet]
  have d: "touchAudioAccumIndex (processAudio spec_config True [0, 0] session_full) = 192000"
          "trace (processAudio spec_config True [0, 0] session_full) = [Serial msg_buffer_full]"
          "touchState (processAudio spec_config True [0, 0] session_full) = TOUCH_RECORDING_ACTIVE"
          "recordingCommand (processAudio spec_config True [0, 0] session_full)"
    using facts by simp_all
  show ?thesis
    by (intro conjI inv facts(1,2) d)
qed

text \<open>
  C9. A pass of \<open>processAudio\<close> that processes a block leaves the peak at the maximum of
  the old peak and the new current level; a pass that processes none leaves the peak as
  it is. The touch state machine, the capture and upload steps and the BLE callbacks do
  not write the peak. So the peak never decreases: not in a pass of the loop, not along a
  run, and not when a run is extended.
\<close>

theorem peak_never_decreases:
  "peakAudioLevel (processAudio cfg ok data s) =
     (if block_processed cfg ok data s
      then max (peakAudioLevel s) (currentAudioLevel (processAudio cfg ok data s))
      else peakAudioLevel s)
   \<and> peakAudioLevel (handleTouchSensor cfg now touchValue s) = peakAudioLevel s
   \<and> peakAudioLevel (capture_photo_step now frame s) = peakAudioLevel s
   \<and> peakAudioLevel (upload_photo_step s) = peakAudioLevel s
   \<and> peakAudioLevel (ble_callback cfg now ev s) = peakAudioLevel s
   \<and> peakAudioLevel s \<le> peakAudioLevel (loop_app cfg inp s)
   \<and> peakAudioLevel s \<le> peakAudioLevel (run cfg steps s)
   \<and> peakAudioLevel (run cfg steps s) \<le> peakAudioLevel (run cfg (steps @ more_steps) s)"
proof -
  have "peakAudioLevel (run cfg steps s) \<le> peakAudioLevel (run cfg (steps @ more_steps) s)"
    unfolding run_append by (rule run_peak_mono)
  then show ?thesis
    by (intro conjI processAudio_peak loop_app_peak_mono run_peak_mono) simp_all
qed

theorem peak_witness:
  "block_processed spec_config True [1000, - 1000] listening
   \<and> peakAudioLevel listening = 20
   \<and> currentAudioLevel (processAudio spec_config True [1000, - 1000] listening) = 3125 / 64
   \<and> peakAudioLevel (processAudio spec_config True [1000, - 1000] listening) = 3125 / 64
   \<and> peakAudioLevel listening
        \<le> peakAudioLevel (run spec_config [Tick tick_loud, Tick tick_silent] listening)"
proof -
  have p: "block_processed spec_config True [1000, - 1000] listening"
    by (simp add: block_processed_def listening_def boot_def spec_config_def)
  have k: "peakAudioLevel listening = 20"
    by (simp add: listening_def)
  have l: "currentAudioLevel (processAudio spec_config True [1000, - 1000] listening) = 3125 / 64"
    using processAudio_level(1) [OF p] by (simp add: spec_config_def audio_level_loud_block)
  from peak_never_decreases
         [where cfg = spec_config and ok = True and data = "[1000, - 1000]" and s = listening
            and steps = "[Tick tick_loud, Tick tick_silent]" and more_steps = "[]"
            and now = 0 and touchValue = 0 and frame = None and ev = OnConnect and inp = tick_loud]
  have "peakAudioLevel (processAudio spec_config True [1000, - 1000] listening) = 3125 / 64"
       "peakAudioLevel listening
          \<le> peakAudioLevel (run spec_config [Tick tick_loud, Tick tick_silent] listening)"
    using p k l by simp_all
  then show ?thesis
    by (intro conjI p k l)
qed

text \<open>
  C3, as the code has it. When \<open>processAudio\<close> processes a block, it computes in single
  precision, every operation rounded to binary32. It takes as DC offset the running sum
  of the samples divided by their number, multiplies every sample less the offset by the
  gain of 16 and converts the product to an integer, discarding its fraction; it drops the
  integers whose magnitude does not exceed the noise gate of 100 and sets the level to the
  root of the running sum of the squares of the others divided by their number, divided
  by 32768 and times 100, or to 0 when none is left; the peak becomes the maximum of the
  old peak and that level. This is the level for every block whose converted values fit
  \<^verbatim>\<open>int16_t\<close>. For a block of zeros the level is 0 and the peak, which is never negative
  in a state that the device reaches, is unchanged.
\<close>

theorem audio_level_is_gated_rms:
  assumes "block_processed cfg ok data s"
      and "in_int16_range (take (I2S_READ_LEN cfg) data)"
      and "0 \<le> peakAudioLevel s"
    shows "currentAudioLevel (processAudio cfg ok data s)
             = truncated_level (take (I2S_READ_LEN cfg) data)
         \<and> peakAudioLevel (processAudio cfg ok data s)
             = max (peakAudioLevel s) (truncated_level (take (I2S_READ_LEN cfg) data))
         \<and> ((\<forall>x \<in> set (take (I2S_READ_LEN cfg) data). x = 0) \<longrightarrow>
              currentAudioLevel (processAudio cfg ok data s) = 0
              \<and> peakAudioLevel (processAudio cfg ok data s) = peakAudioLevel s)
         \<and> (\<forall>steps mic. 0 \<le> peakAudioLevel (run cfg steps (boot cfg mic)))"
proof -
  let ?blk = "take (I2S_READ_LEN cfg) data"
  note l = processAudio_level [OF assms(1)]
  have e: "audio_level ?blk = truncated_level ?blk"
    using assms(2) by (rule audio_level_eq)
  have 1: "currentAudioLevel (processAudio cfg ok data s) = truncated_level ?blk"
    unfolding l e ..
  have 2: "peakAudioLevel (processAudio cfg ok data s) = max (peakAudioLevel s) (truncated_level ?blk)"
    unfolding l e ..
  have 3: "(\<forall>x \<in> set ?blk. x = 0) \<longrightarrow>
              currentAudioLevel (processAudio cfg ok data s) = 0
              \<and> peakAudioLevel (processAudio cfg ok data s) = peakAudioLevel s"
  proof (rule impI)
    assume "\<forall>x \<in> set ?blk. x = 0"
    then have "truncated_level ?blk = 0" by (rule zero_block(2))
    then show "currentAudioLevel (processAudio cfg ok data s) = 0
              \<and> peakAudioLevel (processAudio cfg ok data s) = peakAudioLevel s"
      unfolding 1 2 using assms(3) by simp
  qed
  have 4: "\<forall>steps mic. 0 \<le> peakAudioLevel (run cfg steps (boot cfg mic))"
    by (intro allI run_peak_nonneg)
  show ?thesis
    by (intro conjI 1 2 3 4)
qed

text \<open>
  The theorem at three blocks: the quiet block of 31 zeros and one 201, a block of zeros,
  and the block of 76 samples of 20000 and one of 20486. In the last the mean is rounded
  from 1540486/77 to 20006.3125, all 77 converted values pass the gate, and the level is
  about 2.69 percent.
\<close>

theorem audio_level_witness:
  "block_processed spec_config True quiet_block listening
   \<and> in_int16_range quiet_block
   \<and> peakAudioLevel listening = 20
   \<and> currentAudioLevel (processAudio spec_config True quiet_block listening) = 77875 / 8192
   \<and> peakAudioLevel (processAudio spec_config True quiet_block listening) = 20
   \<and> block_processed spec_config True [0, 0, 0, 0] listening
   \<and> currentAudioLevel (processAudio spec_config True [0, 0, 0, 0] listening) = 0
   \<and> peakAudioLevel (processAudio spec_config True [0, 0, 0, 0] listening) = 20
   \<and> block_processed spec_config True rounded_mean_block listening
   \<and> in_int16_range rounded_mean_block
   \<and> block_mean rounded_mean_block = 1540486 / 77
   \<and> block_mean_f32 rounded_mean_block = 320101 / 16
   \<and> map trunc_toward_zero (gained_f32 rounded_mean_block) = replicate 76 (- 101) @ [7675]
   \<and> currentAudioLevel (processAudio spec_config True rounded_mean_block listening)
         = 1408615 / 524288"
proof -
  have k: "peakAudioLevel listening = 20" "0 \<le> peakAudioLevel listening"
    by (simp_all add: listening_def)
  have r: "in_int16_range (take (I2S_READ_LEN spec_config) quiet_block)"
    unfolding quiet_block_processed(2) by (rule quiet_block_in_range)
  from audio_level_is_gated_rms [OF quiet_block_processed(1) r k(2)]
  have a: "currentAudioLevel (processAudio spec_config True quiet_block listening) = 77875 / 8192"
          "peakAudioLevel (processAudio spec_config True quiet_block listening) = 20"
    unfolding quiet_block_processed(2) quiet_block_truncated k(1) by simp_all
  have zp: "block_processed spec_config True [0, 0, 0, 0] listening"
    by (simp add: block_processed_def listening_def boot_def spec_config_def)
  have zt: "take (I2S_READ_LEN spec_config) [0, 0, 0, 0] = [0, 0, 0, 0::16 word]"
    by (simp add: spec_config_def)
  have zr: "in_int16_range (take (I2S_READ_LEN spec_config) [0, 0, 0, 0])"
    unfolding zt by (rule zero_block(1)) simp
  from audio_level_is_gated_rms [OF zp zr k(2)]
  have b: "currentAudioLevel (processAudio spec_config True [0, 0, 0, 0] listening) = 0"
          "peakAudioLevel (processAudio spec_config True [0, 0, 0, 0] listening) = 20"
    unfolding zt k(1) by simp_all
  have mp: "block_processed spec_config True rounded_mean_block listening"
    by (simp add: block_processed_def listening_def boot_def spec_config_def
          rounded_mean_block_def)
  have mt: "take (I2S_READ_LEN spec_config) rounded_mean_block = rounded_mean_block"
    by (simp add: spec_config_def rounded_mean_block_def)
  have mr: "in_int16_range (take (I2S_READ_LEN spec_config) rounded_mean_block)"
    unfolding mt by (rule rounded_mean_block_in_range)
  from audio_level_is_gated_rms [OF mp mr k(2)]
  have c: "currentAudioLevel (processAudio spec_config True rounded_mean_block listening)
             = 1408615 / 524288"
    unfolding mt rounded_mean_block_level by simp
  show ?thesis
    by (intro conjI quiet_block_processed(1) quiet_block_in_range k(1) a zp b mp
          rounded_mean_block_in_range rounded_mean_block_mean rounded_mean_block_gained(2) c)
qed

text \<open>
  Without the conversion to an integer the claim fails. In the block of 31 zeros and one
  201, every gained value (100.5 in magnitude, and 3115.5) exceeds the gate, and the root
  mean square over all 32 gives a level of about 1.7 percent; the source converts 100.5 to
  100, which the gate drops, and computes about 9.5 percent from the one value left. No
  operation of the source rounds on this block.
\<close>

theorem audio_level_counterexample:
  "block_processed spec_config True quiet_block listening
   \<and> currentAudioLevel (processAudio spec_config True quiet_block listening) = 77875 / 8192
   \<and> claimed_level quiet_block = sqrt (1252431 / 4) / 32768 * 100
   \<and> claimed_level quiet_block
        \<noteq> currentAudioLevel (processAudio spec_config True quiet_block listening)"
  unfolding quiet_block_level
  by (intro conjI quiet_block_processed(1) refl quiet_block_claimed quiet_block_differs)

subsection \<open>The speech classifier\<close>

text \<open>
  C7, as the code has it. \<open>detectSpeechActivity\<close> computes in single precision, every
  operation rounded to binary32. It returns false for a non-empty block whose mean-square
  energy (the running sum of the rounded squares, divided by the number of samples) is
  below 20000000; it also returns false when the total of the three band energies is
  below 5000; otherwise it returns true exactly when the rounded share of the middle band
  in that total lies strictly between the binary32 numbers nearest to 0.2 and 0.8, which
  are \<open>13421773 / 2^26\<close> and \<open>13421773 / 2^24\<close>. (For the empty block the total is 0
  and the answer false.)
\<close>

theorem speech_activity_classifier:
  "detectSpeechActivity samples =
     (if samples \<noteq> [] \<and> mean_square_f32 samples < 20000000 then False
      else if spectral_total_f32 samples < 5000 then False
      else f32 (2 / 10) < mid_fraction_f32 samples \<and> mid_fraction_f32 samples < f32 (8 / 10))
   \<and> f32 (2 / 10) = 13421773 / 2 ^ 26
   \<and> f32 (8 / 10) = 13421773 / 2 ^ 24"
proof -
  have a: "f32 (2 / 10) = 13421773 / 2 ^ 26"
    using f32_one_fifth by simp
  have b: "f32 (8 / 10) = 13421773 / 2 ^ 24"
    using f32_four_fifths by simp
  show ?thesis
    by (intro conjI detectSpeechActivity_bands a b)
qed

text \<open>
  The theorem at three blocks. The block that swings is speech. The other two have a
  share of the middle band of 2/5 and a total spectral energy above 40000; the rounded
  sum of their rounded squares decides: a mean square of 19999998 over the real numbers
  is 20000000 in single precision, and the answer true; one of 20000002 is 19999994, and
  the answer false.
\<close>

theorem speech_activity_witness:
  "\<not> mean_square_f32 speech_block < 20000000
   \<and> spectral_total_f32 speech_block = 80000
   \<and> mid_fraction_f32 speech_block = 13421773 / 2 ^ 25
   \<and> detectSpeechActivity speech_block
   \<and> mean_square rounded_up_block = 19999998
   \<and> mean_square_f32 rounded_up_block = 20000000
   \<and> spectral_total_f32 rounded_up_block = 40090
   \<and> detectSpeechActivity rounded_up_block
   \<and> mean_square rounded_down_block = 20000002
   \<and> spectral_total rounded_down_block = 40220
   \<and> mid_fraction rounded_down_block = 2 / 5
   \<and> mean_square_f32 rounded_down_block = 19999994
   \<and> \<not> detectSpeechActivity rounded_down_block"
proof -
  have t: "spectral_total_f32 speech_block = 80000"
    by (simp add: spectral_total_f32_def speech_block_values f32_numeral)
  have m: "mid_fraction_f32 speech_block = 13421773 / 2 ^ 25"
    unfolding mid_fraction_f32_def t by (simp add: speech_block_values f32_two_fifths)
  have e: "\<not> mean_square_f32 speech_block < 20000000"
    by (simp add: speech_block_values)
  from speech_activity_classifier [of speech_block]
  have d: "detectSpeechActivity speech_block"
    by (simp add: t m speech_block_exact(1) speech_block_values(1))
  have tu: "spectral_total_f32 rounded_up_block = 40090"
    by (simp add: spectral_total_f32_def rounded_up_block_values f32_numeral)
  have mu: "mid_fraction_f32 rounded_up_block = 13421773 / 2 ^ 25"
    unfolding mid_fraction_f32_def tu by (simp add: rounded_up_block_values f32_two_fifths)
  from speech_activity_classifier [of rounded_up_block]
  have du: "detectSpeechActivity rounded_up_block"
    by (simp add: tu mu rounded_up_block_values(1))
  have ne: "rounded_down_block \<noteq> []"
    by (simp add: rounded_down_block_def)
  from speech_activity_classifier [of rounded_down_block]
  have dd: "\<not> detectSpeechActivity rounded_down_block"
    by (simp add: ne rounded_down_block_values)
  show ?thesis
    by (intro conjI e t m d rounded_up_block_exact(1) rounded_up_block_values(1) tu du
          rounded_down_block_exact(1) rounded_down_block_exact(3) rounded_down_block_exact(2)
          rounded_down_block_values dd)
qed

text \<open>
  The second guard is missing from the claim. The steady block has a mean-square energy
  of about 67.8 million and a middle share of 128 / 320, over the real numbers and in
  single precision alike, yet the answer is false: its total spectral energy is 320.
\<close>

theorem speech_activity_counterexample:
  "steady_block \<noteq> []
   \<and> \<not> mean_square steady_block < 20000000
   \<and> 0.2 < mid_fraction steady_block
   \<and> mid_fraction steady_block < 0.8
   \<and> \<not> mean_square_f32 steady_block < 20000000
   \<and> f32 (2 / 10) < mid_fraction_f32 steady_block
   \<and> mid_fraction_f32 steady_block < f32 (8 / 10)
   \<and> spectral_total_f32 steady_block = 320
   \<and> \<not> detectSpeechActivity steady_block"
proof -
  have t: "spectral_total steady_block = 320" "mid_fraction steady_block = 2 / 5"
    by (simp_all add: spectral_total_def mid_fraction_def steady_block_exact)
  have e: "\<not> mean_square steady_block < 20000000"
    by (simp add: steady_block_exact)
  have f: "0.2 < mid_fraction steady_block" "mid_fraction steady_block < 0.8"
    by (simp_all add: t)
  have t32: "spectral_total_f32 steady_block = 320"
    by (simp add: spectral_total_f32_def steady_block_values f32_numeral)
  have m32: "mid_fraction_f32 steady_block = 13421773 / 33554432"
    unfolding mid_fraction_f32_def t32 by (simp add: steady_block_values f32_two_fifths)
  have e32: "\<not> mean_square_f32 steady_block < 20000000"
    by (simp add: steady_block_values)
  have f32s: "f32 (2 / 10) < mid_fraction_f32 steady_block"
             "mid_fraction_f32 steady_block < f32 (8 / 10)"
    unfolding m32 using f32_one_fifth f32_four_fifths by simp_all
  have d: "\<not> detectSpeechActivity steady_block"
    by (simp add: detectSpeechActivity_bands t32)
  show ?thesis
    by (intro conjI steady_block_exact(1) e f e32 f32s t32 d)
qed
end
